theory Spec2Isabelle
  imports Main "HOL-Library.Word"
begin

unbundle bit_operations_syntax

section \<open>The coalescing registry (package singleflight)\<close>

text \<open>
  The registry is used by several goroutines at once, so the three operations
  \<open>Do\<close>, \<open>DoChan\<close> and \<open>Forget\<close> are embedded as an interleaving semantics: a
  global state (the \<open>Group\<close>, the heap of \<open>call\<close> records, one control point
  per goroutine) and a function \<open>step\<close> that lets one goroutine execute its next
  statement. A schedule is the list of goroutines that move, in order.

  Granularity: taking \<open>g.mu\<close> is a step of its own; the statements executed
  while the mutex is held form one step that ends with the \<open>Unlock\<close> (no other
  goroutine can observe the map in between). \<open>c.val, c.err = fn()\<close>,
  \<open>c.wg.Done()\<close>, \<open>c.wg.Wait()\<close> returning, reading \<open>c.val, c.err\<close> for the
  result, a channel send and a channel close are one step each.

  The store of line 46 (81) and the read of lines 38 and 54 (69 and 88) each touch two
  fields in one step. In a run without \<open>Forget\<close> the read comes after the
  \<open>Done\<close> that follows the store, so no behaviour is lost. Once \<open>Forget\<close> has
  released the waiters of a record whose unit of work is still running, the read and the
  store are unordered in the program, which may then also read one field stored and the
  other not; this granularity does not show such reads. What is stated about runs with
  \<open>Forget\<close> is therefore either a schedule that the program has as well, or an
  invariant on the map, the counters and the control points, which no read of result
  fields touches.
\<close>

type_synonym key = string
type_synonym cid = nat
type_synonym tid = nat

subsection \<open>The data of the source\<close>

text \<open>\<open>type call struct { wg sync.WaitGroup; val interface{}; err error }\<close>.
  The wait group is its counter; a nil interface value or a nil error is \<open>None\<close>.\<close>

record ('v, 'e) call =
  wg :: int
  val :: "'v option"
  err :: "'e option"

text \<open>\<open>type Result struct { Val interface{}; Err error; Shared bool }\<close>.\<close>

record ('v, 'e) Result =
  Val :: "'v option"
  Err :: "'e option"
  Shared :: bool

text \<open>\<open>new(call)\<close>: every field has its zero value.\<close>

definition new_call :: "('v, 'e) call" where
  "new_call = \<lparr>wg = 0, val = None, err = None\<rparr>"

text \<open>
  \<open>sync.WaitGroup\<close> of the Go library: \<open>Add\<close> adds to the counter and panics
  (sync: negative WaitGroup counter) when the counter becomes negative, here the
  result \<open>None\<close>; \<open>Done\<close> is \<open>Add(-1)\<close>; \<open>Wait\<close> returns once the counter is zero.
\<close>

definition wg_Add :: "int \<Rightarrow> ('v, 'e) call \<Rightarrow> ('v, 'e) call option" where
  "wg_Add delta c = (if wg c + delta < 0 then None else Some (c\<lparr>wg := wg c + delta\<rparr>))"

definition wg_Done :: "('v, 'e) call \<Rightarrow> ('v, 'e) call option" where
  "wg_Done c = wg_Add (- 1) c"

definition wg_Wait :: "('v, 'e) call \<Rightarrow> bool" where
  "wg_Wait c \<longleftrightarrow> wg c = 0"

text \<open>
  A Go map from keys to \<open>*call\<close>. The nil map is \<open>None\<close>: reading it finds nothing,
  \<open>delete\<close> on it does nothing, and storing into it panics (the result \<open>None\<close> of
  \<open>map_store\<close>).
\<close>

type_synonym gomap = "(key \<rightharpoonup> cid) option"

definition map_get :: "gomap \<Rightarrow> key \<Rightarrow> cid option" where
  "map_get mp k = (case mp of None \<Rightarrow> None | Some f \<Rightarrow> f k)"

definition map_store :: "gomap \<Rightarrow> key \<Rightarrow> cid \<Rightarrow> gomap option" where
  "map_store mp k c = (case mp of None \<Rightarrow> None | Some f \<Rightarrow> Some (Some (f(k \<mapsto> c))))"

definition map_delete :: "gomap \<Rightarrow> key \<Rightarrow> gomap" where
  "map_delete mp k = (case mp of None \<Rightarrow> None | Some f \<Rightarrow> Some (f(k := None)))"

text \<open>
  \<open>make(chan Result, 1)\<close>: a buffered channel of capacity one. Nothing in the
  package receives from it, so the buffer holds what was sent. A send blocks while the
  buffer is full and panics on a closed channel; closing a closed channel panics.
\<close>

record ('v, 'e) chan =
  buf :: "('v, 'e) Result list"
  closed :: bool

datatype 'a outcome = Blocks | Panics | Ok 'a

definition make_chan :: "('v, 'e) chan" where
  "make_chan = \<lparr>buf = [], closed = False\<rparr>"

definition chan_send :: "('v, 'e) Result \<Rightarrow> ('v, 'e) chan \<Rightarrow> ('v, 'e) chan outcome" where
  "chan_send r c =
     (if closed c then Panics
      else if length (buf c) < 1 then Ok (c\<lparr>buf := buf c @ [r]\<rparr>)
      else Blocks)"

definition chan_close :: "('v, 'e) chan \<Rightarrow> ('v, 'e) chan outcome" where
  "chan_close c = (if closed c then Panics else Ok (c\<lparr>closed := True\<rparr>))"

subsection \<open>Goroutines and the global state\<close>

text \<open>
  The unit of work \<open>fn func() (interface{}, error)\<close> is a closure with side
  effects: it reads and changes a world \<open>'w\<close> outside the registry and returns a
  value and an error.
\<close>

type_synonym ('v, 'e, 'w) fn = "'w \<Rightarrow> ('v option \<times> 'e option) \<times> 'w"

datatype ('v, 'e, 'w) op =
    Do key "('v, 'e, 'w) fn"
  | DoChan key "('v, 'e, 'w) fn"
  | Forget key

text \<open>
  Control points. The line numbers are those of the source, first for \<open>Do\<close>, then
  for \<open>DoChan\<close>, then for \<open>Forget\<close>. The flag of \<open>Close\<close>, \<open>Closed\<close> and
  \<open>Returned\<close> tells whether the goroutine came along the joining path (\<open>True\<close>:
  lines 36-38 and 66-72) or along the executing path (\<open>False\<close>).
\<close>

datatype ('v, 'e) pc =
    Lock          \<comment> \<open>before \<open>g.mu.Lock()\<close>: 30, 60, 98\<close>
  | Locked        \<comment> \<open>holds \<open>g.mu\<close>: 31-44, 61-78, 99-103\<close>
  | Wait cid      \<comment> \<open>\<open>c.wg.Wait()\<close>: 37, 68\<close>
  | Joined cid    \<comment> \<open>\<open>return c.val, c.err\<close>: 38; \<open>ch <- Result{c.val, c.err, true}\<close>: 69\<close>
  | Call cid      \<comment> \<open>\<open>c.val, c.err = fn()\<close>: 46, 81\<close>
  | Signal cid    \<comment> \<open>\<open>c.wg.Done()\<close>: 48, 82\<close>
  | Relock cid    \<comment> \<open>before \<open>g.mu.Lock()\<close>: 50, 84\<close>
  | Delete cid    \<comment> \<open>holds \<open>g.mu\<close>; \<open>delete(g.m, key)\<close>, \<open>g.mu.Unlock()\<close>: 51-52, 85-86\<close>
  | Owned cid     \<comment> \<open>\<open>return c.val, c.err\<close>: 54; \<open>ch <- Result{c.val, c.err, false}\<close>: 88\<close>
  | Close cid bool    \<comment> \<open>\<open>close(ch)\<close>: 70, 89\<close>
  | Closed cid bool   \<comment> \<open>the goroutine of \<open>DoChan\<close> has ended\<close>
  | Returned cid bool "'v option" "'e option"   \<comment> \<open>\<open>Do\<close> has returned this value and error\<close>
  | Forgot        \<comment> \<open>\<open>Forget\<close> has returned\<close>

record ('v, 'e, 'w) thread =
  op :: "('v, 'e, 'w) op"
  pc :: "('v, 'e) pc"
  ch :: "('v, 'e) chan"

text \<open>What has happened, for the statements of the claims: which goroutine ran a unit
  of work for which record and what it returned, and which goroutine called \<open>Done\<close> on
  which record. No step reads the trace.\<close>

datatype ('v, 'e) event =
    Invoked tid cid "'v option" "'e option"
  | Signalled tid cid

text \<open>\<open>type Group struct { mu sync.Mutex; m map[string]*call }\<close>, with the heap of
  call records (\<open>new(call)\<close> appends one, its address is its index), the goroutines,
  and whether a panic has ended the process.\<close>

record ('v, 'e, 'w) state =
  mu :: "tid option"
  m :: gomap
  calls :: "('v, 'e) call list"
  threads :: "('v, 'e, 'w) thread list"
  world :: 'w
  trace :: "('v, 'e) event list"
  panicked :: bool

definition goto :: "tid \<Rightarrow> ('v, 'e) pc \<Rightarrow> ('v, 'e, 'w) state \<Rightarrow> ('v, 'e, 'w) state" where
  "goto t p s = s\<lparr>threads := (threads s)[t := (threads s ! t)\<lparr>pc := p\<rparr>]\<rparr>"

definition set_ch :: "tid \<Rightarrow> ('v, 'e) chan \<Rightarrow> ('v, 'e, 'w) state \<Rightarrow> ('v, 'e, 'w) state" where
  "set_ch t c s = s\<lparr>threads := (threads s)[t := (threads s ! t)\<lparr>ch := c\<rparr>]\<rparr>"

definition panic :: "('v, 'e, 'w) state \<Rightarrow> ('v, 'e, 'w) state" where
  "panic s = s\<lparr>panicked := True\<rparr>"

text \<open>The result a caller reads from a record: \<open>c.val, c.err\<close>.\<close>

definition result_of :: "('v, 'e) call \<Rightarrow> bool \<Rightarrow> ('v, 'e) Result" where
  "result_of c b = \<lparr>Val = val c, Err = err c, Shared = b\<rparr>"

subsection \<open>The three operations\<close>

text \<open>Lines 31-44 of \<open>Do\<close> and 61-78 of \<open>DoChan\<close>, which are the same statements:
  allocate the map if it is nil; join the record of the key if there is one; otherwise
  register a new record with counter one.\<close>

definition join_or_register :: "tid \<Rightarrow> key \<Rightarrow> ('v, 'e, 'w) state \<Rightarrow> ('v, 'e, 'w) state" where
  "join_or_register t k s =
     (let s1 = (if m s = None then s\<lparr>m := Some Map.empty\<rparr> else s) in
      case map_get (m s1) k of
        Some c \<Rightarrow> goto t (Wait c) (s1\<lparr>mu := None\<rparr>)
      | None \<Rightarrow>
          (let c = length (calls s1) in
           case wg_Add 1 new_call of
             None \<Rightarrow> panic s1
           | Some c0 \<Rightarrow>
               (case map_store (m s1) k c of
                  None \<Rightarrow> panic (s1\<lparr>calls := calls s1 @ [c0]\<rparr>)
                | Some mp \<Rightarrow> goto t (Call c) (s1\<lparr>calls := calls s1 @ [c0], m := mp, mu := None\<rparr>))))"

text \<open>Lines 46 and 81: run the unit of work and store what it returns.\<close>

definition run_fn :: "tid \<Rightarrow> cid \<Rightarrow> ('v, 'e, 'w) fn \<Rightarrow> ('v, 'e, 'w) state \<Rightarrow> ('v, 'e, 'w) state" where
  "run_fn t c f s =
     (case f (world s) of
        ((v, e), w) \<Rightarrow>
          goto t (Signal c)
            (s\<lparr>calls := (calls s)[c := (calls s ! c)\<lparr>val := v, err := e\<rparr>],
               world := w,
               trace := trace s @ [Invoked t c v e]\<rparr>))"

text \<open>\<open>c.wg.Done()\<close> by goroutine \<open>t\<close>, continuing at \<open>p\<close>.\<close>

definition signal :: "tid \<Rightarrow> cid \<Rightarrow> ('v, 'e) pc \<Rightarrow> ('v, 'e, 'w) state \<Rightarrow> ('v, 'e, 'w) state" where
  "signal t c p s =
     (let s1 = s\<lparr>trace := trace s @ [Signalled t c]\<rparr> in
      case wg_Done (calls s ! c) of
        None \<Rightarrow> panic s1
      | Some c' \<Rightarrow> goto t p (s1\<lparr>calls := (calls s)[c := c']\<rparr>))"

fun Do_step :: "tid \<Rightarrow> key \<Rightarrow> ('v, 'e, 'w) fn \<Rightarrow> ('v, 'e) pc \<Rightarrow> ('v, 'e, 'w) state
    \<Rightarrow> ('v, 'e, 'w) state option" where
  "Do_step t k f Lock s =
     (if mu s = None then Some (goto t Locked (s\<lparr>mu := Some t\<rparr>)) else None)"
| "Do_step t k f Locked s = Some (join_or_register t k s)"
| "Do_step t k f (Wait c) s =
     (if wg_Wait (calls s ! c) then Some (goto t (Joined c) s) else None)"
| "Do_step t k f (Joined c) s =
     Some (goto t (Returned c True (val (calls s ! c)) (err (calls s ! c))) s)"
| "Do_step t k f (Call c) s = Some (run_fn t c f s)"
| "Do_step t k f (Signal c) s = Some (signal t c (Relock c) s)"
| "Do_step t k f (Relock c) s =
     (if mu s = None then Some (goto t (Delete c) (s\<lparr>mu := Some t\<rparr>)) else None)"
| "Do_step t k f (Delete c) s =
     Some (goto t (Owned c) (s\<lparr>m := map_delete (m s) k, mu := None\<rparr>))"
| "Do_step t k f (Owned c) s =
     Some (goto t (Returned c False (val (calls s ! c)) (err (calls s ! c))) s)"
| "Do_step t k f (Close c b) s = None"
| "Do_step t k f (Closed c b) s = None"
| "Do_step t k f (Returned c b v e) s = None"
| "Do_step t k f Forgot s = None"

text \<open>A send of \<open>r\<close> on the goroutine's own channel, continuing at \<open>p\<close>.\<close>

definition send :: "tid \<Rightarrow> ('v, 'e) Result \<Rightarrow> ('v, 'e) pc \<Rightarrow> ('v, 'e, 'w) state
    \<Rightarrow> ('v, 'e, 'w) state option" where
  "send t r p s =
     (case chan_send r (ch (threads s ! t)) of
        Blocks \<Rightarrow> None
      | Panics \<Rightarrow> Some (panic s)
      | Ok c' \<Rightarrow> Some (goto t p (set_ch t c' s)))"

fun DoChan_step :: "tid \<Rightarrow> key \<Rightarrow> ('v, 'e, 'w) fn \<Rightarrow> ('v, 'e) pc \<Rightarrow> ('v, 'e, 'w) state
    \<Rightarrow> ('v, 'e, 'w) state option" where
  "DoChan_step t k f Lock s =
     (if mu s = None then Some (goto t Locked (s\<lparr>mu := Some t\<rparr>)) else None)"
| "DoChan_step t k f Locked s = Some (join_or_register t k s)"
| "DoChan_step t k f (Wait c) s =
     (if wg_Wait (calls s ! c) then Some (goto t (Joined c) s) else None)"
| "DoChan_step t k f (Joined c) s = send t (result_of (calls s ! c) True) (Close c True) s"
| "DoChan_step t k f (Call c) s = Some (run_fn t c f s)"
| "DoChan_step t k f (Signal c) s = Some (signal t c (Relock c) s)"
| "DoChan_step t k f (Relock c) s =
     (if mu s = None then Some (goto t (Delete c) (s\<lparr>mu := Some t\<rparr>)) else None)"
| "DoChan_step t k f (Delete c) s =
     Some (goto t (Owned c) (s\<lparr>m := map_delete (m s) k, mu := None\<rparr>))"
| "DoChan_step t k f (Owned c) s = send t (result_of (calls s ! c) False) (Close c False) s"
| "DoChan_step t k f (Close c b) s =
     (case chan_close (ch (threads s ! t)) of
        Blocks \<Rightarrow> None
      | Panics \<Rightarrow> Some (panic s)
      | Ok c' \<Rightarrow> Some (goto t (Closed c b) (set_ch t c' s)))"
| "DoChan_step t k f (Closed c b) s = None"
| "DoChan_step t k f (Returned c b v e) s = None"
| "DoChan_step t k f Forgot s = None"

text \<open>Lines 99-103 of \<open>Forget\<close>: the record is deleted from the map before
  \<open>c.wg.Done()\<close> is called, and the mutex is released after it (a panic of
  \<open>Done\<close> leaves it held).\<close>

fun Forget_step :: "tid \<Rightarrow> key \<Rightarrow> ('v, 'e) pc \<Rightarrow> ('v, 'e, 'w) state
    \<Rightarrow> ('v, 'e, 'w) state option" where
  "Forget_step t k Lock s =
     (if mu s = None then Some (goto t Locked (s\<lparr>mu := Some t\<rparr>)) else None)"
| "Forget_step t k Locked s =
     (case map_get (m s) k of
        Some c \<Rightarrow>
          (let s1 = signal t c Forgot (s\<lparr>m := map_delete (m s) k\<rparr>) in
           Some (if panicked s1 then s1 else s1\<lparr>mu := None\<rparr>))
      | None \<Rightarrow> Some (goto t Forgot (s\<lparr>mu := None\<rparr>)))"
| "Forget_step t k p s = None"

text \<open>One step of goroutine \<open>t\<close>; \<open>None\<close> when it is blocked or has ended, or when
  a panic has ended the process.\<close>

definition step :: "tid \<Rightarrow> ('v, 'e, 'w) state \<Rightarrow> ('v, 'e, 'w) state option" where
  "step t s =
     (if panicked s \<or> length (threads s) \<le> t then None
      else case op (threads s ! t) of
             Do k f \<Rightarrow> Do_step t k f (pc (threads s ! t)) s
           | DoChan k f \<Rightarrow> DoChan_step t k f (pc (threads s ! t)) s
           | Forget k \<Rightarrow> Forget_step t k (pc (threads s ! t)) s)"

fun run :: "tid list \<Rightarrow> ('v, 'e, 'w) state \<Rightarrow> ('v, 'e, 'w) state option" where
  "run [] s = Some s"
| "run (t # ts) s = (case step t s of None \<Rightarrow> None | Some s' \<Rightarrow> run ts s')"

text \<open>\<open>var g Group\<close>: the zero value, with one goroutine per operation, each about to
  start (for \<open>DoChan\<close>, line 59 has made its channel).\<close>

definition init :: "('v, 'e, 'w) op list \<Rightarrow> 'w \<Rightarrow> ('v, 'e, 'w) state" where
  "init ops w =
     \<lparr>mu = None, m = None, calls = [],
      threads = map (\<lambda>x. \<lparr>op = x, pc = Lock, ch = make_chan\<rparr>) ops,
      world = w, trace = [], panicked = False\<rparr>"

definition reachable :: "('v, 'e, 'w) op list \<Rightarrow> 'w \<Rightarrow> ('v, 'e, 'w) state \<Rightarrow> bool" where
  "reachable ops w s \<longleftrightarrow> (\<exists>sched. run sched (init ops w) = Some s)"

section \<open>The Bloom filter (package bloomfilter)\<close>

text \<open>Run-time panics of the filter's operations.\<close>

datatype fault = DivideByZero | IndexOutOfRange

text \<open>
  \<open>type BloomFilter struct { bitSet []bool; size int; hashFuncs []hash.Hash64 }\<close>.
  Every element of \<open>hashFuncs\<close> is an \<open>fnv.New64a()\<close> hasher that \<open>Add\<close> and
  \<open>Contains\<close> reset before each use, so the slice is modelled by its length.
\<close>

record BloomFilter =
  bitSet :: "bool list"
  size_bf :: int
  hashFuncs :: nat

type_synonym byte = "8 word"

text \<open>FNV-1a, 64 bit, of the Go library (\<open>hash/fnv\<close>): \<open>Reset\<close> sets the offset
  basis; \<open>Write\<close> folds each byte in with xor, then multiplies by the prime.\<close>

definition fnv_offset64 :: "64 word" where
  "fnv_offset64 = 14695981039346656037"

definition fnv_prime64 :: "64 word" where
  "fnv_prime64 = 1099511628211"

fun fnv_Write :: "64 word \<Rightarrow> byte list \<Rightarrow> 64 word" where
  "fnv_Write h [] = h"
| "fnv_Write h (b # bs) = fnv_Write ((h XOR ucast b) * fnv_prime64) bs"

text \<open>\<open>h.Reset(); h.Write(data); h.Write([]byte{byte(i)}); h.Sum64()\<close>. The
  conversion \<open>byte(i)\<close> keeps the low eight bits of the index.\<close>

definition hashValue :: "byte list \<Rightarrow> nat \<Rightarrow> 64 word" where
  "hashValue data i = fnv_Write (fnv_Write fnv_offset64 data) [of_nat i]"

text \<open>\<open>position := int(hashValue % uint64(bf.size))\<close>: the remainder panics when
  the divisor is zero.\<close>

definition position :: "BloomFilter \<Rightarrow> byte list \<Rightarrow> nat \<Rightarrow> fault + nat" where
  "position bf data i =
     (let d = (word_of_int (size_bf bf) :: 64 word) in
      if d = 0 then Inl DivideByZero else Inr (unat (hashValue data i mod d)))"

text \<open>The loop of \<open>Add\<close> over the indices of \<open>hashFuncs\<close>; indexing the slice out
  of range panics.\<close>

fun Add_loop :: "byte list \<Rightarrow> nat list \<Rightarrow> BloomFilter \<Rightarrow> fault + BloomFilter" where
  "Add_loop data [] bf = Inr bf"
| "Add_loop data (i # is) bf =
     (case position bf data i of
        Inl e \<Rightarrow> Inl e
      | Inr p \<Rightarrow>
          if p < length (bitSet bf)
          then Add_loop data is (bf\<lparr>bitSet := (bitSet bf)[p := True]\<rparr>)
          else Inl IndexOutOfRange)"

definition Add :: "byte list \<Rightarrow> BloomFilter \<Rightarrow> fault + BloomFilter" where
  "Add data bf = Add_loop data [0..<hashFuncs bf] bf"

fun Contains_loop :: "byte list \<Rightarrow> nat list \<Rightarrow> BloomFilter \<Rightarrow> fault + bool" where
  "Contains_loop data [] bf = Inr True"
| "Contains_loop data (i # is) bf =
     (case position bf data i of
        Inl e \<Rightarrow> Inl e
      | Inr p \<Rightarrow>
          if p < length (bitSet bf)
          then (if \<not> bitSet bf ! p then Inr False else Contains_loop data is bf)
          else Inl IndexOutOfRange)"

definition Contains :: "byte list \<Rightarrow> BloomFilter \<Rightarrow> fault + bool" where
  "Contains data bf = Contains_loop data [0..<hashFuncs bf] bf"

definition Clear :: "BloomFilter \<Rightarrow> BloomFilter" where
  "Clear bf = bf\<lparr>bitSet := map (\<lambda>b. False) (bitSet bf)\<rparr>"

text \<open>
  \<open>NewBloomFilter(n, p)\<close> computes the size \<open>m\<close> and the number \<open>k\<close> of hash
  functions in floating point (\<open>optimalSize\<close>, \<open>optimalHashCount\<close>); that
  arithmetic is not embedded. What follows it is: \<open>make([]bool, m)\<close> and
  \<open>make([]hash.Hash64, k)\<close>, each of which panics on a negative length (\<open>None\<close>).
\<close>

definition NewBloomFilter_sized :: "int \<Rightarrow> int \<Rightarrow> BloomFilter option" where
  "NewBloomFilter_sized m' k =
     (if m' < 0 \<or> k < 0 then None
      else Some \<lparr>bitSet = replicate (nat m') False, size_bf = m', hashFuncs = nat k\<rparr>)"

text \<open>A caller's sequence of \<open>Add\<close> and \<open>Clear\<close> calls, and the elements added
  since the construction or the most recent \<open>Clear\<close>.\<close>

datatype bf_op = AddOp "byte list" | ClearOp

fun apply_ops :: "bf_op list \<Rightarrow> BloomFilter \<Rightarrow> fault + BloomFilter" where
  "apply_ops [] bf = Inr bf"
| "apply_ops (AddOp d # ops) bf =
     (case Add d bf of Inl e \<Rightarrow> Inl e | Inr bf' \<Rightarrow> apply_ops ops bf')"
| "apply_ops (ClearOp # ops) bf = apply_ops ops (Clear bf)"

fun added_since :: "bf_op list \<Rightarrow> byte list list \<Rightarrow> byte list list" where
  "added_since [] acc = acc"
| "added_since (AddOp d # ops) acc = added_since ops (d # acc)"
| "added_since (ClearOp # ops) acc = added_since ops []"

text \<open>The invariant of a filter: the slice has the recorded size, the size is a Go
  \<open>int\<close>, and a filter that hashes has a positive size.\<close>

definition wf_bf :: "BloomFilter \<Rightarrow> bool" where
  "wf_bf bf \<longleftrightarrow>
     length (bitSet bf) = nat (size_bf bf) \<and> size_bf bf < 2 ^ 63 \<and>
     (0 < size_bf bf \<or> hashFuncs bf = 0)"

text \<open>The bit that hash function \<open>i\<close> assigns to \<open>d\<close> is set.\<close>

definition marked :: "BloomFilter \<Rightarrow> byte list \<Rightarrow> nat \<Rightarrow> bool" where
  "marked bf d i \<longleftrightarrow> (\<exists>p. position bf d i = Inr p \<and> p < length (bitSet bf) \<and> bitSet bf ! p)"

text \<open>The key an operation is called with, and its unit of work.\<close>

fun key_of :: "('v, 'e, 'w) op \<Rightarrow> key" where
  "key_of (Do k f) = k"
| "key_of (DoChan k f) = k"
| "key_of (Forget k) = k"

fun is_Forget :: "('v, 'e, 'w) op \<Rightarrow> bool" where
  "is_Forget (Forget k) = True"
| "is_Forget x = False"

fun fn_of :: "('v, 'e, 'w) op \<Rightarrow> ('v, 'e, 'w) fn option" where
  "fn_of (Do k f) = Some f"
| "fn_of (DoChan k f) = Some f"
| "fn_of (Forget k) = None"

text \<open>
  The invariant of the registry, for every state that can be reached without a panic and
  whatever mix of \<open>Do\<close>, \<open>DoChan\<close> and \<open>Forget\<close> runs. A goroutine between lines
  46 and 52 (81 and 86) is the executor of its record.
\<close>

fun executing :: "('v, 'e) pc \<Rightarrow> cid option" where
  "executing (Call c) = Some c"
| "executing (Signal c) = Some c"
| "executing (Relock c) = Some c"
| "executing (Delete c) = Some c"
| "executing p = None"

fun holds_mu :: "('v, 'e) pc \<Rightarrow> bool" where
  "holds_mu Locked = True"
| "holds_mu (Delete c) = True"
| "holds_mu p = False"

fun pc_ok :: "('v, 'e, 'w) state \<Rightarrow> key \<Rightarrow> ('v, 'e) pc \<Rightarrow> bool" where
  "pc_ok s k Lock = True"
| "pc_ok s k Locked = True"
| "pc_ok s k (Wait c) = (c < length (calls s))"
| "pc_ok s k (Joined c) = (c < length (calls s))"
| "pc_ok s k (Call c) =
     (c < length (calls s) \<and> val (calls s ! c) = None \<and> err (calls s ! c) = None \<and>
      (if map_get (m s) k = Some c then wg (calls s ! c) = 1 else wg (calls s ! c) = 0))"
| "pc_ok s k (Signal c) =
     (c < length (calls s) \<and>
      (if map_get (m s) k = Some c then wg (calls s ! c) = 1 else wg (calls s ! c) = 0))"
| "pc_ok s k (Relock c) =
     (c < length (calls s) \<and> map_get (m s) k = Some c \<and> wg (calls s ! c) = 0)"
| "pc_ok s k (Delete c) =
     (c < length (calls s) \<and> map_get (m s) k = Some c \<and> wg (calls s ! c) = 0)"
| "pc_ok s k (Owned c) = (c < length (calls s))"
| "pc_ok s k (Close c b) = (c < length (calls s))"
| "pc_ok s k (Closed c b) = (c < length (calls s))"
| "pc_ok s k (Returned c b v e) = (c < length (calls s))"
| "pc_ok s k Forgot = True"

definition pcs_ok :: "('v, 'e, 'w) state \<Rightarrow> bool" where
  "pcs_ok s \<longleftrightarrow>
     (\<forall>t < length (threads s). pc_ok s (key_of (op (threads s ! t))) (pc (threads s ! t)))"

definition one_executor :: "('v, 'e, 'w) state \<Rightarrow> bool" where
  "one_executor s \<longleftrightarrow>
     (\<forall>t < length (threads s). \<forall>u < length (threads s). \<forall>c.
        executing (pc (threads s ! t)) = Some c \<longrightarrow> executing (pc (threads s ! u)) = Some c
        \<longrightarrow> t = u)"

definition entries_executed :: "('v, 'e, 'w) state \<Rightarrow> bool" where
  "entries_executed s \<longleftrightarrow>
     (\<forall>k c. map_get (m s) k = Some c \<longrightarrow>
        (\<exists>t < length (threads s). executing (pc (threads s ! t)) = Some c \<and>
           key_of (op (threads s ! t)) = k))"

definition mutex_ok :: "('v, 'e, 'w) state \<Rightarrow> bool" where
  "mutex_ok s \<longleftrightarrow>
     (\<forall>t < length (threads s). holds_mu (pc (threads s ! t)) \<longleftrightarrow> mu s = Some t) \<and>
     (\<forall>t. mu s = Some t \<longrightarrow> t < length (threads s))"

definition ginv :: "('v, 'e, 'w) state \<Rightarrow> bool" where
  "ginv s \<longleftrightarrow> pcs_ok s \<and> one_executor s \<and> entries_executed s \<and> mutex_ok s"

text \<open>A unit of work that returns the value \<open>n\<close> and no error and leaves the world as
  it is, as the units of work of the package's tests do (\<open>return "result", nil\<close>).\<close>

definition unit_fn :: "nat \<Rightarrow> (nat, string, unit) fn" where
  "unit_fn n = (\<lambda>w. ((Some n, None), w))"

fun is_Do :: "('v, 'e, 'w) op \<Rightarrow> bool" where
  "is_Do (Do k f) = True"
| "is_Do x = False"

fun is_DoChan :: "('v, 'e, 'w) op \<Rightarrow> bool" where
  "is_DoChan (DoChan k f) = True"
| "is_DoChan x = False"

text \<open>
  The record a goroutine is attached to (it joined it or created it), and the record it
  created: the goroutine on the executing path is the initiator of its record.
\<close>

fun attached :: "('v, 'e) pc \<Rightarrow> cid option" where
  "attached Lock = None"
| "attached Locked = None"
| "attached (Wait c) = Some c"
| "attached (Joined c) = Some c"
| "attached (Call c) = Some c"
| "attached (Signal c) = Some c"
| "attached (Relock c) = Some c"
| "attached (Delete c) = Some c"
| "attached (Owned c) = Some c"
| "attached (Close c b) = Some c"
| "attached (Closed c b) = Some c"
| "attached (Returned c b v e) = Some c"
| "attached Forgot = None"

fun initiator :: "('v, 'e) pc \<Rightarrow> cid option" where
  "initiator (Call c) = Some c"
| "initiator (Signal c) = Some c"
| "initiator (Relock c) = Some c"
| "initiator (Delete c) = Some c"
| "initiator (Owned c) = Some c"
| "initiator (Close c b) = (if b then None else Some c)"
| "initiator (Closed c b) = (if b then None else Some c)"
| "initiator (Returned c b v e) = (if b then None else Some c)"
| "initiator p = None"

definition picks :: "(tid \<Rightarrow> cid \<Rightarrow> bool) \<Rightarrow> ('v, 'e) event list \<Rightarrow> ('v option \<times> 'e option) list" where
  "picks P es =
     concat (map (\<lambda>x. case x of Invoked t c v e \<Rightarrow> if P t c then [(v, e)] else []
                           | Signalled t c \<Rightarrow> []) es)"

definition results_for :: "cid \<Rightarrow> ('v, 'e) event list \<Rightarrow> ('v option \<times> 'e option) list" where
  "results_for c es = picks (\<lambda>t c'. c' = c) es"

definition invocations :: "('v, 'e, 'w) op list \<Rightarrow> key \<Rightarrow> ('v, 'e) event list
    \<Rightarrow> ('v option \<times> 'e option) list" where
  "invocations ops k es = picks (\<lambda>t c. key_of (ops ! t) = k) es"

fun pc_ff :: "('v, 'e, 'w) state \<Rightarrow> ('v, 'e, 'w) thread \<Rightarrow> ('v, 'e) pc \<Rightarrow> bool" where
  "pc_ff s th Lock = (ch th = make_chan)"
| "pc_ff s th Locked = (ch th = make_chan)"
| "pc_ff s th (Wait c) = (ch th = make_chan)"
| "pc_ff s th (Joined c) = (wg (calls s ! c) = 0 \<and> ch th = make_chan)"
| "pc_ff s th (Call c) =
     (wg (calls s ! c) = 1 \<and> results_for c (trace s) = [] \<and> ch th = make_chan)"
| "pc_ff s th (Signal c) =
     (wg (calls s ! c) = 1 \<and>
      results_for c (trace s) = [(val (calls s ! c), err (calls s ! c))] \<and> ch th = make_chan)"
| "pc_ff s th (Relock c) = (wg (calls s ! c) = 0 \<and> ch th = make_chan)"
| "pc_ff s th (Delete c) = (wg (calls s ! c) = 0 \<and> ch th = make_chan)"
| "pc_ff s th (Owned c) = (wg (calls s ! c) = 0 \<and> ch th = make_chan)"
| "pc_ff s th (Close c b) =
     (wg (calls s ! c) = 0 \<and> is_DoChan (op th) \<and>
      ch th = \<lparr>buf = [result_of (calls s ! c) b], closed = False\<rparr>)"
| "pc_ff s th (Closed c b) =
     (wg (calls s ! c) = 0 \<and> is_DoChan (op th) \<and>
      ch th = \<lparr>buf = [result_of (calls s ! c) b], closed = True\<rparr>)"
| "pc_ff s th (Returned c b v e) =
     (wg (calls s ! c) = 0 \<and> is_Do (op th) \<and> v = val (calls s ! c) \<and> e = err (calls s ! c))"
| "pc_ff s th Forgot = False"

definition pcs_ff :: "('v, 'e, 'w) state \<Rightarrow> bool" where
  "pcs_ff s \<longleftrightarrow> (\<forall>t < length (threads s). pc_ff s (threads s ! t) (pc (threads s ! t)))"

definition rec_ff :: "('v, 'e, 'w) state \<Rightarrow> bool" where
  "rec_ff s \<longleftrightarrow>
     (\<forall>c < length (calls s).
        (wg (calls s ! c) = 0 \<and>
         results_for c (trace s) = [(val (calls s ! c), err (calls s ! c))]) \<or>
        (wg (calls s ! c) = 1 \<and>
         (\<exists>t < length (threads s). pc (threads s ! t) = Call c \<or> pc (threads s ! t) = Signal c)))"

definition trace_ff :: "('v, 'e, 'w) state \<Rightarrow> bool" where
  "trace_ff s \<longleftrightarrow>
     (\<forall>t c v e. Invoked t c v e \<in> set (trace s) \<longrightarrow>
        t < length (threads s) \<and> initiator (pc (threads s ! t)) = Some c \<and>
        pc (threads s ! t) \<noteq> Call c)"

definition one_initiator :: "('v, 'e, 'w) state \<Rightarrow> bool" where
  "one_initiator s \<longleftrightarrow>
     (\<forall>t < length (threads s). \<forall>u < length (threads s). \<forall>c.
        initiator (pc (threads s ! t)) = Some c \<longrightarrow> initiator (pc (threads s ! u)) = Some c
        \<longrightarrow> t = u) \<and>
     (\<forall>c < length (calls s). \<exists>t < length (threads s). initiator (pc (threads s ! t)) = Some c)"

definition same_key :: "('v, 'e, 'w) state \<Rightarrow> bool" where
  "same_key s \<longleftrightarrow>
     (\<forall>t < length (threads s). \<forall>u < length (threads s). \<forall>c.
        attached (pc (threads s ! t)) = Some c \<longrightarrow> attached (pc (threads s ! u)) = Some c
        \<longrightarrow> key_of (op (threads s ! t)) = key_of (op (threads s ! u)))"

definition no_forget :: "('v, 'e, 'w) state \<Rightarrow> bool" where
  "no_forget s \<longleftrightarrow> (\<forall>t < length (threads s). \<not> is_Forget (op (threads s ! t)))"

definition finv :: "('v, 'e, 'w) state \<Rightarrow> bool" where
  "finv s \<longleftrightarrow>
     ginv s \<and> \<not> panicked s \<and> no_forget s \<and> pcs_ff s \<and> rec_ff s \<and> trace_ff s \<and>
     one_initiator s \<and> same_key s"

text \<open>
  A call is in flight when it has done step 1 (it has joined a record or registered one)
  and has neither returned nor, as the executor, removed the record in step 4.
\<close>

fun in_flight :: "('v, 'e) pc \<Rightarrow> bool" where
  "in_flight (Wait c) = True"
| "in_flight (Joined c) = True"
| "in_flight (Call c) = True"
| "in_flight (Signal c) = True"
| "in_flight (Relock c) = True"
| "in_flight (Delete c) = True"
| "in_flight p = False"

text \<open>The goroutine of a call has ended: \<open>Do\<close> has returned, or the goroutine of
  \<open>DoChan\<close> has closed its channel.\<close>

fun final :: "('v, 'e) pc \<Rightarrow> bool" where
  "final (Returned c b v e) = True"
| "final (Closed c b) = True"
| "final p = False"

text \<open>The number of steps a goroutine has left at most, and their sum over all
  goroutines: every step lowers it.\<close>

fun rank :: "('v, 'e) pc \<Rightarrow> nat" where
  "rank Lock = 10"
| "rank Locked = 9"
| "rank (Call c) = 8"
| "rank (Signal c) = 7"
| "rank (Relock c) = 6"
| "rank (Delete c) = 5"
| "rank (Owned c) = 4"
| "rank (Wait c) = 3"
| "rank (Joined c) = 2"
| "rank (Close c b) = 1"
| "rank (Closed c b) = 0"
| "rank (Returned c b v e) = 0"
| "rank Forgot = 0"

definition steps_left :: "('v, 'e, 'w) state \<Rightarrow> nat" where
  "steps_left s = sum_list (map (\<lambda>th. rank (pc th)) (threads s))"

text \<open>A unit of work that fails with the error \<open>x\<close>.\<close>

definition fail_fn :: "string \<Rightarrow> (nat, string, unit) fn" where
  "fail_fn x = (\<lambda>w. ((None, Some x), w))"

(*INSERT-DEFS*)

section \<open>The Bloom filter: no false negatives\<close>

lemma position_in_range:
  assumes "0 < size_bf bf" "size_bf bf < 2 ^ 63" "length (bitSet bf) = nat (size_bf bf)"
  shows "\<exists>p. position bf d i = Inr p \<and> p < length (bitSet bf)"
proof -
  let ?d = "word_of_int (size_bf bf) :: 64 word"
  have u: "unat ?d = nat (size_bf bf)"
    using assms by (simp add: unat_eq_nat_uint uint_word_of_int take_bit_int_eq_self)
  then have nz: "?d \<noteq> 0" using assms by (metis unat_0 zero_less_nat_eq less_irrefl)
  have "unat (hashValue d i mod ?d) < unat ?d"
    using nz by (simp add: unat_mod unat_gt_0)
  then show ?thesis using nz u assms by (simp add: position_def Let_def)
qed

lemma position_bitSet [simp]: "position (bf\<lparr>bitSet := bs\<rparr>) d i = position bf d i"
  by (simp add: position_def)

lemma marked_mono:
  "marked bf d i \<Longrightarrow> p < length (bitSet bf) \<Longrightarrow>
   marked (bf\<lparr>bitSet := (bitSet bf)[p := True]\<rparr>) d i"
  by (auto simp: marked_def nth_list_update)

lemma Add_loop_ok:
  assumes "wf_bf bf" "is \<noteq> [] \<longrightarrow> 0 < size_bf bf"
  shows "\<exists>bf'. Add_loop d is bf = Inr bf' \<and> wf_bf bf' \<and> size_bf bf' = size_bf bf \<and>
     hashFuncs bf' = hashFuncs bf \<and> (\<forall>i \<in> set is. marked bf' d i) \<and>
     (\<forall>e j. marked bf e j \<longrightarrow> marked bf' e j)"
  using assms
proof (induction "is" arbitrary: bf)
  case Nil
  then show ?case by simp
next
  case (Cons i "is")
  then have pos: "0 < size_bf bf" by simp
  from Cons.prems(1) pos obtain p where p: "position bf d i = Inr p" "p < length (bitSet bf)"
    using position_in_range[of bf d i] by (auto simp: wf_bf_def)
  let ?bf = "bf\<lparr>bitSet := (bitSet bf)[p := True]\<rparr>"
  have wf: "wf_bf ?bf" using Cons.prems(1) by (simp add: wf_bf_def)
  have m1: "marked ?bf d i" using p by (simp add: marked_def)
  have mono: "\<And>e j. marked bf e j \<Longrightarrow> marked ?bf e j" using p(2) by (simp add: marked_mono)
  have "is \<noteq> [] \<longrightarrow> 0 < size_bf ?bf" using pos by simp
  from Cons.IH[OF wf this] obtain bf' where bf':
    "Add_loop d is ?bf = Inr bf'" "wf_bf bf'" "size_bf bf' = size_bf bf"
    "hashFuncs bf' = hashFuncs bf"
    "\<forall>i \<in> set is. marked bf' d i" "\<forall>e j. marked ?bf e j \<longrightarrow> marked bf' e j"
    by auto
  show ?case using p bf' m1 mono by auto
qed

lemma Add_ok:
  assumes "wf_bf bf"
  shows "\<exists>bf'. Add d bf = Inr bf' \<and> wf_bf bf' \<and> hashFuncs bf' = hashFuncs bf \<and>
     (\<forall>i < hashFuncs bf'. marked bf' d i) \<and> (\<forall>e j. marked bf e j \<longrightarrow> marked bf' e j)"
proof -
  have "[0..<hashFuncs bf] \<noteq> [] \<longrightarrow> 0 < size_bf bf"
    using assms by (auto simp: wf_bf_def)
  from Add_loop_ok[OF assms this, of d] show ?thesis by (auto simp: Add_def)
qed

lemma Contains_loop_marked:
  "\<forall>i \<in> set is. marked bf d i \<Longrightarrow> Contains_loop d is bf = Inr True"
  by (induction "is") (auto simp: marked_def)

lemma Contains_marked:
  "\<forall>i < hashFuncs bf. marked bf d i \<Longrightarrow> Contains d bf = Inr True"
  by (simp add: Contains_def Contains_loop_marked)

lemma wf_Clear: "wf_bf bf \<Longrightarrow> wf_bf (Clear bf)"
  by (simp add: wf_bf_def Clear_def)

lemma hashFuncs_Clear [simp]: "hashFuncs (Clear bf) = hashFuncs bf"
  by (simp add: Clear_def)

lemma apply_ops_ok:
  assumes "wf_bf bf" "\<forall>d \<in> set acc. \<forall>i < hashFuncs bf. marked bf d i"
  shows "\<exists>bf'. apply_ops ops bf = Inr bf' \<and> wf_bf bf' \<and> hashFuncs bf' = hashFuncs bf \<and>
     (\<forall>d \<in> set (added_since ops acc). \<forall>i < hashFuncs bf'. marked bf' d i)"
  using assms
proof (induction ops acc arbitrary: bf rule: added_since.induct)
  case (1 acc)
  then show ?case by simp
next
  case (2 d ops acc)
  from Add_ok[OF 2(2), of d] obtain bf1 where bf1:
    "Add d bf = Inr bf1" "wf_bf bf1" "hashFuncs bf1 = hashFuncs bf"
    "\<forall>i < hashFuncs bf1. marked bf1 d i" "\<forall>e j. marked bf e j \<longrightarrow> marked bf1 e j"
    by blast
  have "\<forall>e \<in> set (d # acc). \<forall>i < hashFuncs bf1. marked bf1 e i"
    using bf1 2(3) by auto
  from 2(1)[OF bf1(2) this] show ?case using bf1 by auto
next
  case (3 ops acc)
  have "\<forall>d \<in> set []. \<forall>i < hashFuncs (Clear bf). marked (Clear bf) d i" by simp
  from 3(1)[OF wf_Clear[OF 3(2)] this] show ?case by auto
qed

text \<open>
  C10. The filter never produces a false negative. Take any filter that
  \<open>NewBloomFilter\<close> builds (its two \<open>make\<close> calls succeed on the computed size
  \<open>n\<close>, a Go \<open>int\<close>, and hash count \<open>k\<close>; a filter of size zero has no hash
  function, which is what the two formulas of the constructor give). Then every sequence of
  \<open>Add\<close> and \<open>Clear\<close> calls runs without a panic, and afterwards \<open>Contains(d)\<close>
  returns true for every \<open>d\<close> added since the construction or the most recent
  \<open>Clear\<close>.
\<close>

theorem bloom_no_false_negative:
  assumes "NewBloomFilter_sized n k = Some bf0" "n < 2 ^ 63" "0 < n \<or> k = 0"
  shows "\<exists>bf. apply_ops ops bf0 = Inr bf \<and>
    (\<forall>d \<in> set (added_since ops []). Contains d bf = Inr True)"
proof -
  have wf: "wf_bf bf0"
    using assms by (auto simp: NewBloomFilter_sized_def wf_bf_def split: if_splits)
  have "\<forall>d \<in> set []. \<forall>i < hashFuncs bf0. marked bf0 d i" by simp
  from apply_ops_ok[OF wf this, of ops] show ?thesis by (auto intro: Contains_marked)
qed

theorem bloom_no_false_negative_witness:
  "NewBloomFilter_sized 8 2 = Some \<lparr>bitSet = replicate 8 False, size_bf = 8, hashFuncs = 2\<rparr> \<and>
   (8::int) < 2 ^ 63 \<and>
   (\<exists>bf. apply_ops [AddOp [1, 2], ClearOp, AddOp [3], AddOp [4, 5]]
            \<lparr>bitSet = replicate 8 False, size_bf = 8, hashFuncs = 2\<rparr> = Inr bf \<and>
         Contains [3] bf = Inr True \<and> Contains [4, 5] bf = Inr True)"
proof -
  have c: "NewBloomFilter_sized 8 2 = Some \<lparr>bitSet = replicate 8 False, size_bf = 8, hashFuncs = 2\<rparr>"
    by (simp add: NewBloomFilter_sized_def)
  have a: "added_since [AddOp [1, 2], ClearOp, AddOp [3], AddOp [4, 5]] [] = [[4, 5], [3]]"
    by simp
  from bloom_no_false_negative[OF c, of "[AddOp [1, 2], ClearOp, AddOp [3], AddOp [4, 5]]"]
  show ?thesis unfolding a using c by auto
qed

section \<open>The coalescing registry: steps and reachable states\<close>

lemmas sf_defs = init_def step_def goto_def set_ch_def join_or_register_def map_get_def
  map_store_def map_delete_def wg_Add_def wg_Done_def wg_Wait_def new_call_def run_fn_def
  signal_def panic_def send_def chan_send_def chan_close_def make_chan_def result_of_def Let_def

lemma step_cases [consumes 1, case_names lock join register wait ret_shared send_shared call
    signal relock delete ret_own send_own close forget_miss forget_hit panic]:
  assumes st: "step t s = Some s'"
  obtains
    (lock) "pc (threads s ! t) = Lock" "mu s = None" "s' = goto t Locked (s\<lparr>mu := Some t\<rparr>)"
  | (join) c where "\<not> is_Forget (op (threads s ! t))" "pc (threads s ! t) = Locked"
      "map_get (m s) (key_of (op (threads s ! t))) = Some c"
      "s' = goto t (Wait c) (s\<lparr>mu := None\<rparr>)"
  | (register) "\<not> is_Forget (op (threads s ! t))" "pc (threads s ! t) = Locked"
      "map_get (m s) (key_of (op (threads s ! t))) = None"
      "s' = goto t (Call (length (calls s)))
         (s\<lparr>calls := calls s @ [\<lparr>wg = 1, val = None, err = None\<rparr>],
            m := Some ((case m s of None \<Rightarrow> Map.empty | Some f \<Rightarrow> f)
                        (key_of (op (threads s ! t)) \<mapsto> length (calls s))),
            mu := None\<rparr>)"
  | (wait) c where "pc (threads s ! t) = Wait c" "wg (calls s ! c) = 0"
      "\<not> is_Forget (op (threads s ! t))" "s' = goto t (Joined c) s"
  | (ret_shared) k f c where "op (threads s ! t) = Do k f" "pc (threads s ! t) = Joined c"
      "s' = goto t (Returned c True (val (calls s ! c)) (err (calls s ! c))) s"
  | (send_shared) k f c where "op (threads s ! t) = DoChan k f" "pc (threads s ! t) = Joined c"
      "\<not> closed (ch (threads s ! t))" "buf (ch (threads s ! t)) = []"
      "s' = goto t (Close c True)
          (set_ch t ((ch (threads s ! t))\<lparr>buf := [result_of (calls s ! c) True]\<rparr>) s)"
  | (call) c f v e w' where "fn_of (op (threads s ! t)) = Some f" "pc (threads s ! t) = Call c"
      "f (world s) = ((v, e), w')"
      "s' = goto t (Signal c)
            (s\<lparr>calls := (calls s)[c := (calls s ! c)\<lparr>val := v, err := e\<rparr>],
               world := w', trace := trace s @ [Invoked t c v e]\<rparr>)"
  | (signal) c where "\<not> is_Forget (op (threads s ! t))" "pc (threads s ! t) = Signal c"
      "1 \<le> wg (calls s ! c)"
      "s' = goto t (Relock c)
            (s\<lparr>trace := trace s @ [Signalled t c],
               calls := (calls s)[c := (calls s ! c)\<lparr>wg := wg (calls s ! c) - 1\<rparr>]\<rparr>)"
  | (relock) c where "\<not> is_Forget (op (threads s ! t))" "pc (threads s ! t) = Relock c"
      "mu s = None" "s' = goto t (Delete c) (s\<lparr>mu := Some t\<rparr>)"
  | (delete) c where "\<not> is_Forget (op (threads s ! t))" "pc (threads s ! t) = Delete c"
      "s' = goto t (Owned c) (s\<lparr>m := map_delete (m s) (key_of (op (threads s ! t))), mu := None\<rparr>)"
  | (ret_own) k f c where "op (threads s ! t) = Do k f" "pc (threads s ! t) = Owned c"
      "s' = goto t (Returned c False (val (calls s ! c)) (err (calls s ! c))) s"
  | (send_own) k f c where "op (threads s ! t) = DoChan k f" "pc (threads s ! t) = Owned c"
      "\<not> closed (ch (threads s ! t))" "buf (ch (threads s ! t)) = []"
      "s' = goto t (Close c False)
          (set_ch t ((ch (threads s ! t))\<lparr>buf := [result_of (calls s ! c) False]\<rparr>) s)"
  | (close) k f c b where "op (threads s ! t) = DoChan k f" "pc (threads s ! t) = Close c b"
      "\<not> closed (ch (threads s ! t))"
      "s' = goto t (Closed c b) (set_ch t ((ch (threads s ! t))\<lparr>closed := True\<rparr>) s)"
  | (forget_miss) k where "op (threads s ! t) = Forget k" "pc (threads s ! t) = Locked"
      "map_get (m s) k = None" "s' = goto t Forgot (s\<lparr>mu := None\<rparr>)"
  | (forget_hit) k c where "op (threads s ! t) = Forget k" "pc (threads s ! t) = Locked"
      "map_get (m s) k = Some c" "1 \<le> wg (calls s ! c)"
      "s' = goto t Forgot
            (s\<lparr>m := map_delete (m s) k, trace := trace s @ [Signalled t c],
               calls := (calls s)[c := (calls s ! c)\<lparr>wg := wg (calls s ! c) - 1\<rparr>],
               mu := None\<rparr>)"
  | (panic) "panicked s'"
      "is_Forget (op (threads s ! t)) \<or>
       (\<exists>c. pc (threads s ! t) = Signal c \<and> wg (calls s ! c) < 1) \<or>
       (closed (ch (threads s ! t)) \<and> is_DoChan (op (threads s ! t)) \<and>
        (\<exists>c. pc (threads s ! t) = Joined c \<or> pc (threads s ! t) = Owned c \<or>
           (\<exists>b. pc (threads s ! t) = Close c b)))"
proof -
  from st have np: "\<not> panicked s" and tl: "t < length (threads s)"
    by (auto simp: step_def split: if_splits)
  show ?thesis
  proof (cases "op (threads s ! t)")
    case (Do k f)
    with st np tl have d: "Do_step t k f (pc (threads s ! t)) s = Some s'"
      by (simp add: step_def)
    show ?thesis
    proof (cases "pc (threads s ! t)")
      case Lock
      with d Do show ?thesis by (intro lock) (auto split: if_splits)
    next
      case Locked
      show ?thesis
      proof (cases "map_get (m s) k")
        case None
        with d Do Locked show ?thesis
          by (intro register) (auto simp: sf_defs split: option.splits if_splits)
      next
        case (Some c)
        with d Do Locked show ?thesis
          by (intro join[of c]) (auto simp: sf_defs split: option.splits if_splits)
      qed
    next
      case (Wait c)
      with d Do show ?thesis by (intro wait[of c]) (auto simp: wg_Wait_def split: if_splits)
    next
      case (Joined c)
      with d Do show ?thesis by (intro ret_shared[of k f c]) auto
    next
      case (Call c)
      obtain v e w' where fw: "f (world s) = ((v, e), w')" by (metis surj_pair)
      with d Do Call show ?thesis by (intro call[of f c v e w']) (auto simp: run_fn_def)
    next
      case (Signal c)
      show ?thesis
      proof (cases "1 \<le> wg (calls s ! c)")
        case True
        with d Do Signal show ?thesis
          by (intro signal[of c]) (auto simp: sf_defs)
      next
        case False
        with d Do Signal show ?thesis
          by (intro panic) (auto simp: sf_defs)
      qed
    next
      case (Relock c)
      with d Do show ?thesis by (intro relock[of c]) (auto split: if_splits)
    next
      case (Delete c)
      with d Do show ?thesis by (intro delete[of c]) auto
    next
      case (Owned c)
      with d Do show ?thesis by (intro ret_own[of k f c]) auto
    qed (use d in auto)
  next
    case (DoChan k f)
    with st np tl have d: "DoChan_step t k f (pc (threads s ! t)) s = Some s'"
      by (simp add: step_def)
    show ?thesis
    proof (cases "pc (threads s ! t)")
      case Lock
      with d DoChan show ?thesis by (intro lock) (auto split: if_splits)
    next
      case Locked
      show ?thesis
      proof (cases "map_get (m s) k")
        case None
        with d DoChan Locked show ?thesis
          by (intro register) (auto simp: sf_defs split: option.splits if_splits)
      next
        case (Some c)
        with d DoChan Locked show ?thesis
          by (intro join[of c]) (auto simp: sf_defs split: option.splits if_splits)
      qed
    next
      case (Wait c)
      with d DoChan show ?thesis by (intro wait[of c]) (auto simp: wg_Wait_def split: if_splits)
    next
      case (Joined c)
      show ?thesis
      proof (cases "closed (ch (threads s ! t))")
        case True
        with d DoChan Joined show ?thesis by (intro panic) (auto simp: sf_defs)
      next
        case False
        with d DoChan Joined show ?thesis
          by (intro send_shared[of k f c]) (auto simp: sf_defs split: if_splits)
      qed
    next
      case (Call c)
      obtain v e w' where fw: "f (world s) = ((v, e), w')" by (metis surj_pair)
      with d DoChan Call show ?thesis by (intro call[of f c v e w']) (auto simp: run_fn_def)
    next
      case (Signal c)
      show ?thesis
      proof (cases "1 \<le> wg (calls s ! c)")
        case True
        with d DoChan Signal show ?thesis
          by (intro signal[of c]) (auto simp: sf_defs)
      next
        case False
        with d DoChan Signal show ?thesis
          by (intro panic) (auto simp: sf_defs)
      qed
    next
      case (Relock c)
      with d DoChan show ?thesis by (intro relock[of c]) (auto split: if_splits)
    next
      case (Delete c)
      with d DoChan show ?thesis by (intro delete[of c]) auto
    next
      case (Owned c)
      show ?thesis
      proof (cases "closed (ch (threads s ! t))")
        case True
        with d DoChan Owned show ?thesis by (intro panic) (auto simp: sf_defs)
      next
        case False
        with d DoChan Owned show ?thesis
          by (intro send_own[of k f c]) (auto simp: sf_defs split: if_splits)
      qed
    next
      case (Close c b)
      show ?thesis
      proof (cases "closed (ch (threads s ! t))")
        case True
        with d DoChan Close show ?thesis by (intro panic) (auto simp: sf_defs)
      next
        case False
        with d DoChan Close show ?thesis
          by (intro close[of k f c b]) (auto simp: sf_defs split: if_splits)
      qed
    qed (use d in auto)
  next
    case (Forget k)
    with st np tl have d: "Forget_step t k (pc (threads s ! t)) s = Some s'"
      by (simp add: step_def)
    show ?thesis
    proof (cases "pc (threads s ! t)")
      case Lock
      with d Forget show ?thesis by (intro lock) (auto split: if_splits)
    next
      case Locked
      show ?thesis
      proof (cases "map_get (m s) k")
        case None
        with d Forget Locked show ?thesis by (intro forget_miss[of k]) auto
      next
        case (Some c)
        show ?thesis
        proof (cases "1 \<le> wg (calls s ! c)")
          case True
          with d Forget Locked Some np show ?thesis
            by (intro forget_hit[of k c]) (auto simp: signal_def wg_Done_def wg_Add_def panic_def goto_def Let_def)
        next
          case False
          with d Forget Locked Some show ?thesis
            by (intro panic) (auto simp: signal_def wg_Done_def wg_Add_def panic_def goto_def Let_def)
        qed
      qed
    qed (use d in auto)
  qed
qed

lemma step_not_panicked: "step t s = Some s' \<Longrightarrow> \<not> panicked s \<and> t < length (threads s)"
  by (auto simp: step_def split: if_splits)

lemma run_append:
  "run (xs @ ys) s = (case run xs s of None \<Rightarrow> None | Some s' \<Rightarrow> run ys s')"
  by (induction xs arbitrary: s) (auto split: option.splits)

lemma reachable_induct [consumes 1, case_names init step]:
  assumes "reachable ops w s"
    and "P (init ops w)"
    and "\<And>s t s'. reachable ops w s \<Longrightarrow> P s \<Longrightarrow> step t s = Some s' \<Longrightarrow> P s'"
  shows "P s"
proof -
  from assms(1) obtain sched where "run sched (init ops w) = Some s"
    by (auto simp: reachable_def)
  then show ?thesis
  proof (induction sched arbitrary: s rule: rev_induct)
    case Nil
    then show ?case using assms(2) by simp
  next
    case (snoc t ts)
    then obtain s0 where s0: "run ts (init ops w) = Some s0" "step t s0 = Some s"
      by (auto simp: run_append split: option.splits)
    then have "reachable ops w s0" by (auto simp: reachable_def)
    with snoc.IH[OF s0(1)] s0(2) show ?case by (rule assms(3)[rotated 1]) 
  qed
qed

section \<open>The zero Group\<close>

text \<open>
  C9. Every operation is safe on a Group whose map was never allocated. Let the map be
  nil and the mutex free, and let goroutine \<open>t\<close> start its operation. Its first step
  takes the mutex and leaves the map nil; its second step, made while it holds the mutex,
  does not panic and releases the mutex. For \<open>Do\<close> and \<open>DoChan\<close> that step
  allocates the map and stores the new record under the key (no store into a nil map
  happens); for \<open>Forget\<close> the lookup in the nil map finds nothing and the state is the
  one before the call, but for the control point of the goroutine.
\<close>

theorem zero_group_safe:
  assumes "m s = None" "\<not> panicked s" "t < length (threads s)"
    "pc (threads s ! t) = Lock" "mu s = None"
  shows "\<exists>s1 s2. step t s = Some s1 \<and> mu s1 = Some t \<and> m s1 = None \<and>
     step t s1 = Some s2 \<and> \<not> panicked s2 \<and> mu s2 = None \<and>
     (case op (threads s ! t) of
        Do k f \<Rightarrow> m s2 = Some [k \<mapsto> length (calls s)] \<and>
          pc (threads s2 ! t) = Call (length (calls s)) \<and>
          calls s2 = calls s @ [\<lparr>wg = 1, val = None, err = None\<rparr>]
      | DoChan k f \<Rightarrow> m s2 = Some [k \<mapsto> length (calls s)] \<and>
          pc (threads s2 ! t) = Call (length (calls s)) \<and>
          calls s2 = calls s @ [\<lparr>wg = 1, val = None, err = None\<rparr>]
      | Forget k \<Rightarrow> s2 = goto t Forgot s)"
  using assms by (cases "op (threads s ! t)") (simp_all add: sf_defs)

theorem zero_group_safe_witness:
  "(\<exists>s1 s2. step 0 (init [Forget ''k'', Do ''k'' (\<lambda>w. ((Some (1::nat), None :: string option), w))] ()) = Some s1 \<and>
      mu s1 = Some 0 \<and> step 0 s1 = Some s2 \<and> \<not> panicked s2 \<and>
      s2 = goto 0 Forgot (init [Forget ''k'', Do ''k'' (\<lambda>w. ((Some 1, None), w))] ())) \<and>
   (\<exists>s1 s2. step 1 (init [Forget ''k'', Do ''k'' (\<lambda>w. ((Some (1::nat), None :: string option), w))] ()) = Some s1 \<and>
      mu s1 = Some 1 \<and> m s1 = None \<and> step 1 s1 = Some s2 \<and> \<not> panicked s2 \<and>
      m s2 = Some [''k'' \<mapsto> 0] \<and> pc (threads s2 ! 1) = Call 0)"
proof -
  let ?s = "init [Forget ''k'', Do ''k'' (\<lambda>w. ((Some (1::nat), None :: string option), w))] ()"
  have h: "m ?s = None" "\<not> panicked ?s" "0 < length (threads ?s)" "1 < length (threads ?s)"
    "pc (threads ?s ! 0) = Lock" "pc (threads ?s ! 1) = Lock" "mu ?s = None"
    by (simp_all add: init_def)
  have o: "op (threads ?s ! 0) = Forget ''k''"
    "op (threads ?s ! 1) = Do ''k'' (\<lambda>w. ((Some 1, None), w))" "calls ?s = []"
    by (simp_all add: init_def)
  from zero_group_safe[OF h(1,2,3,5,7)] zero_group_safe[OF h(1,2,4,6,7)]
  show ?thesis unfolding o by auto
qed

section \<open>Forget signals the record a second time\<close>

text \<open>
  C3. The schedule of the package's own \<open>ExampleForget\<close>: a \<open>Do\<close> registers its
  record and is about to run its unit of work (goroutine 0), \<open>Forget\<close> of the same
  key runs (goroutine 1), a second \<open>Do\<close> registers a fresh record (goroutine 2), and
  the first unit of work returns. \<open>Forget\<close> has called \<open>Done\<close> on record 0, so
  the \<open>Done\<close> of its executor is the second signal on that record: the counter
  would become negative and the process panics. The record is signalled twice, once by a
  goroutine that is not its executor.
\<close>

theorem forget_double_signal:
  "\<exists>s. run [0, 0, 1, 1, 2, 2, 0, 0] (init [Do k f, Forget k, Do k g] w) = Some s \<and>
     panicked s \<and>
     filter (\<lambda>x. case x of Signalled t c \<Rightarrow> c = 0 | Invoked t c v e \<Rightarrow> False) (trace s)
       = [Signalled 1 0, Signalled 0 0] \<and>
     pc (threads s ! 0) = Signal 0 \<and> pc (threads s ! 2) = Call 1 \<and>
     step 0 s = None \<and> step 2 s = None"
proof -
  obtain v e w' where "f w = ((v, e), w')" by (metis surj_pair)
  then show ?thesis by (simp add: sf_defs)
qed

text \<open>
  C7. \<open>Forget\<close> on a key whose executor has called \<open>Done\<close> (line 48) and has not
  yet deleted the record (lines 50-52): \<open>Forget\<close> finds the record, deletes it, and
  its own \<open>Done\<close> panics on the counter zero, while it holds the mutex. \<open>Forget\<close>
  does not return, and no later call for the key can start.
\<close>

theorem forget_after_signal_panics:
  "\<exists>s. run [0, 0, 0, 0, 1, 1] (init [Do k f, Forget k] w) = Some s \<and> panicked s \<and>
     mu s = Some 1 \<and> pc (threads s ! 1) = Locked \<and> map_get (m s) k = None \<and>
     step 1 s = None"
proof -
  obtain v e w' where "f w = ((v, e), w')" by (metis surj_pair)
  then show ?thesis by (simp add: sf_defs)
qed

section \<open>The invariant of the registry\<close>

lemma map_get_register [simp]:
  "map_get (Some ((case mp of None \<Rightarrow> Map.empty | Some f \<Rightarrow> f)(k \<mapsto> c))) k' =
     (if k' = k then Some c else map_get mp k')"
  by (simp add: map_get_def split: option.splits)

lemma map_get_delete [simp]:
  "map_get (map_delete mp k) k' = (if k' = k then None else map_get mp k')"
  by (simp add: map_get_def map_delete_def split: option.splits)

lemma pc_ok_frame:
  assumes "pc_ok s k p" "length (calls s) \<le> length (calls s')"
    "\<And>c. c < length (calls s) \<Longrightarrow> calls s' ! c = calls s ! c"
    "\<And>c. executing p = Some c \<Longrightarrow> (map_get (m s') k = Some c) = (map_get (m s) k = Some c)"
  shows "pc_ok s' k p"
  using assms by (cases p) auto

lemma goto_fields [simp]:
  "length (threads (goto t p s)) = length (threads s)"
  "mu (goto t p s) = mu s" "m (goto t p s) = m s" "calls (goto t p s) = calls s"
  "world (goto t p s) = world s" "trace (goto t p s) = trace s"
  "panicked (goto t p s) = panicked s"
  by (simp_all add: goto_def)

lemma op_goto [simp]: "op (threads (goto t p s) ! u) = op (threads s ! u)"
  by (cases "t < length (threads s)") (auto simp: goto_def nth_list_update list_update_beyond)

lemma ch_goto [simp]: "ch (threads (goto t p s) ! u) = ch (threads s ! u)"
  by (cases "t < length (threads s)") (auto simp: goto_def nth_list_update list_update_beyond)

lemma pc_goto [simp]:
  "t < length (threads s) \<Longrightarrow>
   pc (threads (goto t p s) ! u) = (if u = t then p else pc (threads s ! u))"
  by (simp add: goto_def)

lemma set_ch_fields [simp]:
  "length (threads (set_ch t x s)) = length (threads s)"
  "mu (set_ch t x s) = mu s" "m (set_ch t x s) = m s" "calls (set_ch t x s) = calls s"
  "world (set_ch t x s) = world s" "trace (set_ch t x s) = trace s"
  "panicked (set_ch t x s) = panicked s"
  by (simp_all add: set_ch_def)

lemma op_set_ch [simp]: "op (threads (set_ch t x s) ! u) = op (threads s ! u)"
  by (cases "t < length (threads s)") (auto simp: set_ch_def nth_list_update list_update_beyond)

lemma pc_set_ch [simp]: "pc (threads (set_ch t x s) ! u) = pc (threads s ! u)"
  by (cases "t < length (threads s)") (auto simp: set_ch_def nth_list_update list_update_beyond)

lemma ch_set_ch [simp]:
  "t < length (threads s) \<Longrightarrow>
   ch (threads (set_ch t x s) ! u) = (if u = t then x else ch (threads s ! u))"
  by (simp add: set_ch_def)

lemma mutex_step:
  assumes "ginv s" "step t s = Some s'" "\<not> panicked s'"
  shows "mutex_ok s'"
proof -
  from assms(2) have tl: "t < length (threads s)" by (simp add: step_not_panicked)
  from assms(1) have mx: "mutex_ok s" by (simp add: ginv_def)
  from assms(2) show ?thesis
  proof (cases rule: step_cases)
    case panic with assms(3) show ?thesis by simp
  qed (use mx tl in \<open>auto simp: mutex_ok_def\<close>)
qed

lemma one_executor_step:
  assumes "ginv s" "step t s = Some s'" "\<not> panicked s'"
  shows "one_executor s'"
proof -
  from assms(2) have tl: "t < length (threads s)" by (simp add: step_not_panicked)
  from assms(1) have ox: "one_executor s" and pk: "pcs_ok s" by (simp_all add: ginv_def)
  have fresh: "\<And>u. u < length (threads s) \<Longrightarrow>
      executing (pc (threads s ! u)) \<noteq> Some (length (calls s))"
  proof
    fix u assume u: "u < length (threads s)"
      and e: "executing (pc (threads s ! u)) = Some (length (calls s))"
    from pk u have "pc_ok s (key_of (op (threads s ! u))) (pc (threads s ! u))"
      by (simp add: pcs_ok_def)
    with e show False by (cases "pc (threads s ! u)") auto
  qed
  from assms(2) show ?thesis
  proof (cases rule: step_cases)
    case panic with assms(3) show ?thesis by simp
  next
    case register
    with ox tl fresh show ?thesis by (auto simp: one_executor_def)
  qed (use ox tl in \<open>auto simp: one_executor_def\<close>)
qed

lemma entries_frame:
  assumes ee: "entries_executed s" and tl: "t < length (threads s)"
    and len: "length (threads s') = length (threads s)"
    and others: "\<And>u. u < length (threads s) \<Longrightarrow> u \<noteq> t \<Longrightarrow>
        pc (threads s' ! u) = pc (threads s ! u)"
    and ops: "\<And>u. op (threads s' ! u) = op (threads s ! u)"
    and mp: "\<And>k c. map_get (m s') k = Some c \<Longrightarrow>
        map_get (m s) k = Some c \<or>
        (executing (pc (threads s' ! t)) = Some c \<and> key_of (op (threads s ! t)) = k)"
    and keep: "\<And>k c. executing (pc (threads s ! t)) = Some c \<Longrightarrow>
        map_get (m s') k = Some c \<Longrightarrow> executing (pc (threads s' ! t)) = Some c"
  shows "entries_executed s'"
  unfolding entries_executed_def
proof (intro allI impI)
  fix k c assume g: "map_get (m s') k = Some c"
  show "\<exists>u < length (threads s'). executing (pc (threads s' ! u)) = Some c \<and>
          key_of (op (threads s' ! u)) = k"
  proof (cases "map_get (m s) k = Some c")
    case False
    with mp[OF g] tl len ops show ?thesis by (intro exI[of _ t]) simp
  next
    case True
    with ee obtain u where u: "u < length (threads s)"
      "executing (pc (threads s ! u)) = Some c" "key_of (op (threads s ! u)) = k"
      by (auto simp: entries_executed_def)
    show ?thesis
    proof (cases "u = t")
      case True
      with u keep[OF _ g] have "executing (pc (threads s' ! t)) = Some c" by simp
      with u True tl len ops show ?thesis by (intro exI[of _ t]) simp
    next
      case False
      with u others len ops show ?thesis by (intro exI[of _ u]) simp
    qed
  qed
qed

lemma entries_executed_step:
  assumes "ginv s" "step t s = Some s'" "\<not> panicked s'"
  shows "entries_executed s'"
proof -
  from assms(2) have tl: "t < length (threads s)" by (simp add: step_not_panicked)
  from assms(1) have ee: "entries_executed s" and pk: "pcs_ok s" and ox: "one_executor s"
    by (simp_all add: ginv_def)
  have del: "\<And>c k. executing (pc (threads s ! t)) = Some c \<Longrightarrow>
      k \<noteq> key_of (op (threads s ! t)) \<Longrightarrow> map_get (m s) k \<noteq> Some c"
  proof
    fix c k assume e: "executing (pc (threads s ! t)) = Some c"
      and k: "k \<noteq> key_of (op (threads s ! t))" and g: "map_get (m s) k = Some c"
    from ee g obtain u where u: "u < length (threads s)"
      "executing (pc (threads s ! u)) = Some c" "key_of (op (threads s ! u)) = k"
      by (auto simp: entries_executed_def)
    with ox e tl have "u = t" by (auto simp: one_executor_def)
    with u k show False by simp
  qed
  from assms(2) show ?thesis
  proof (cases rule: step_cases)
    case panic with assms(3) show ?thesis by simp
  next
    case (delete c)
    show ?thesis
      by (rule entries_frame[OF ee tl]) (use delete tl del[of c] in \<open>auto split: if_splits\<close>)
  qed (rule entries_frame[OF ee tl]; use tl in \<open>auto split: if_splits\<close>)+
qed

lemma pcs_ok_step:
  assumes "ginv s" "step t s = Some s'" "\<not> panicked s'"
  shows "pcs_ok s'"
proof -
  from assms(2) have tl: "t < length (threads s)" by (simp add: step_not_panicked)
  from assms(1) have ee: "entries_executed s" and pk: "pcs_ok s" and ox: "one_executor s"
    by (simp_all add: ginv_def)
  from pk have ok: "\<And>u. u < length (threads s) \<Longrightarrow>
      pc_ok s (key_of (op (threads s ! u))) (pc (threads s ! u))"
    by (simp add: pcs_ok_def)
  have uniq: "\<forall>u c. u < length (threads s) \<and> u \<noteq> t \<and>
      executing (pc (threads s ! u)) = Some c \<longrightarrow> executing (pc (threads s ! t)) \<noteq> Some c"
    using ox tl by (auto simp: one_executor_def)
  have owner: "\<forall>u c k. u < length (threads s) \<and> executing (pc (threads s ! u)) = Some c \<and>
      map_get (m s) k = Some c \<longrightarrow> key_of (op (threads s ! u)) = k"
  proof (intro allI impI)
    fix u c k assume "u < length (threads s) \<and> executing (pc (threads s ! u)) = Some c \<and>
      map_get (m s) k = Some c"
    then have u: "u < length (threads s)" "executing (pc (threads s ! u)) = Some c"
      and g: "map_get (m s) k = Some c" by simp_all
    from ee g obtain u' where u': "u' < length (threads s)"
      "executing (pc (threads s ! u')) = Some c" "key_of (op (threads s ! u')) = k"
      by (auto simp: entries_executed_def)
    with ox u have "u' = u" by (auto simp: one_executor_def)
    with u' show "key_of (op (threads s ! u)) = k" by simp
  qed
  from assms(2) show ?thesis
  proof (cases rule: step_cases)
    case panic with assms(3) show ?thesis by simp
  next
    case lock
    show ?thesis unfolding pcs_ok_def
    proof (intro allI impI)
      fix u assume "u < length (threads s')"
      with lock tl ok[of u] show "pc_ok s' (key_of (op (threads s' ! u))) (pc (threads s' ! u))"
        by (cases "u = t"; cases "pc (threads s ! u)") auto
    qed
  next
    case (join c)
    from ee join obtain u' where "u' < length (threads s)" "executing (pc (threads s ! u')) = Some c"
      by (auto simp: entries_executed_def)
    with ok[of u'] have cl: "c < length (calls s)" by (cases "pc (threads s ! u')") auto
    show ?thesis unfolding pcs_ok_def
    proof (intro allI impI)
      fix u assume "u < length (threads s')"
      with join tl ok[of u] cl show "pc_ok s' (key_of (op (threads s' ! u))) (pc (threads s' ! u))"
        by (cases "u = t"; cases "pc (threads s ! u)") auto
    qed
  next
    case register
    show ?thesis unfolding pcs_ok_def
    proof (intro allI impI)
      fix u assume "u < length (threads s')"
      with register tl ok[of u] show "pc_ok s' (key_of (op (threads s' ! u))) (pc (threads s' ! u))"
        by (cases "u = t"; cases "pc (threads s ! u)") (auto simp: nth_append)
    qed
  next
    case (wait c)
    show ?thesis unfolding pcs_ok_def
    proof (intro allI impI)
      fix u assume "u < length (threads s')"
      with wait tl ok[of u] show "pc_ok s' (key_of (op (threads s' ! u))) (pc (threads s' ! u))"
        by (cases "u = t"; cases "pc (threads s ! u)") auto
    qed
  next
    case (ret_shared k f c)
    show ?thesis unfolding pcs_ok_def
    proof (intro allI impI)
      fix u assume "u < length (threads s')"
      with ret_shared tl ok[of u] show "pc_ok s' (key_of (op (threads s' ! u))) (pc (threads s' ! u))"
        by (cases "u = t"; cases "pc (threads s ! u)") auto
    qed
  next
    case (send_shared k f c)
    show ?thesis unfolding pcs_ok_def
    proof (intro allI impI)
      fix u assume "u < length (threads s')"
      with send_shared tl ok[of u] show "pc_ok s' (key_of (op (threads s' ! u))) (pc (threads s' ! u))"
        by (cases "u = t"; cases "pc (threads s ! u)") auto
    qed
  next
    case (call c f v e w')
    show ?thesis unfolding pcs_ok_def
    proof (intro allI impI)
      fix u assume ul: "u < length (threads s')"
      with call tl have "u < length (threads s)" by simp
      with uniq call have ne: "u = t \<or> executing (pc (threads s ! u)) \<noteq> Some c" by auto
      from ne ul call tl ok[of u]
      show "pc_ok s' (key_of (op (threads s' ! u))) (pc (threads s' ! u))"
        by (cases "u = t"; cases "pc (threads s ! u)") (auto simp: nth_list_update)
    qed
  next
    case (signal c)
    show ?thesis unfolding pcs_ok_def
    proof (intro allI impI)
      fix u assume ul: "u < length (threads s')"
      with signal tl have "u < length (threads s)" by simp
      with uniq signal have ne: "u = t \<or> executing (pc (threads s ! u)) \<noteq> Some c" by auto
      from ne ul signal tl ok[of u] ok[of t]
      show "pc_ok s' (key_of (op (threads s' ! u))) (pc (threads s' ! u))"
        by (cases "u = t"; cases "pc (threads s ! u)") (auto simp: nth_list_update split: if_splits)
    qed
  next
    case (relock c)
    show ?thesis unfolding pcs_ok_def
    proof (intro allI impI)
      fix u assume "u < length (threads s')"
      with relock tl ok[of u] show "pc_ok s' (key_of (op (threads s' ! u))) (pc (threads s' ! u))"
        by (cases "u = t"; cases "pc (threads s ! u)") auto
    qed
  next
    case (delete c)
    show ?thesis unfolding pcs_ok_def
    proof (intro allI impI)
      fix u assume ul: "u < length (threads s')"
      with delete tl have "u < length (threads s)" by simp
      with uniq delete have ne: "u = t \<or> executing (pc (threads s ! u)) \<noteq> Some c" by auto
      from ne ul delete tl ok[of u] ok[of t]
      show "pc_ok s' (key_of (op (threads s' ! u))) (pc (threads s' ! u))"
        by (cases "u = t"; cases "pc (threads s ! u)") (auto split: if_splits)
    qed
  next
    case (ret_own k f c)
    show ?thesis unfolding pcs_ok_def
    proof (intro allI impI)
      fix u assume "u < length (threads s')"
      with ret_own tl ok[of u] show "pc_ok s' (key_of (op (threads s' ! u))) (pc (threads s' ! u))"
        by (cases "u = t"; cases "pc (threads s ! u)") auto
    qed
  next
    case (send_own k f c)
    show ?thesis unfolding pcs_ok_def
    proof (intro allI impI)
      fix u assume "u < length (threads s')"
      with send_own tl ok[of u] show "pc_ok s' (key_of (op (threads s' ! u))) (pc (threads s' ! u))"
        by (cases "u = t"; cases "pc (threads s ! u)") auto
    qed
  next
    case (close k f c b)
    show ?thesis unfolding pcs_ok_def
    proof (intro allI impI)
      fix u assume "u < length (threads s')"
      with close tl ok[of u] show "pc_ok s' (key_of (op (threads s' ! u))) (pc (threads s' ! u))"
        by (cases "u = t"; cases "pc (threads s ! u)") auto
    qed
  next
    case (forget_miss k)
    show ?thesis unfolding pcs_ok_def
    proof (intro allI impI)
      fix u assume "u < length (threads s')"
      with forget_miss tl ok[of u] show "pc_ok s' (key_of (op (threads s' ! u))) (pc (threads s' ! u))"
        by (cases "u = t"; cases "pc (threads s ! u)") auto
    qed
  next
    case (forget_hit k c)
    show ?thesis unfolding pcs_ok_def
    proof (intro allI impI)
      fix u assume ul: "u < length (threads s')"
      with forget_hit tl have "u < length (threads s)" by simp
      with owner forget_hit have ow: "executing (pc (threads s ! u)) \<noteq> Some c \<or> key_of (op (threads s ! u)) = k" by auto
      from ow ul forget_hit tl ok[of u]
      show "pc_ok s' (key_of (op (threads s' ! u))) (pc (threads s' ! u))"
        by (cases "u = t"; cases "pc (threads s ! u)") (auto simp: nth_list_update split: if_splits)
    qed
  qed
qed

lemma ginv_step:
  assumes "ginv s" "step t s = Some s'" "\<not> panicked s'"
  shows "ginv s'"
  unfolding ginv_def
  using pcs_ok_step[OF assms] one_executor_step[OF assms] entries_executed_step[OF assms]
    mutex_step[OF assms]
  by simp

lemma ginv_init: "ginv (init ops w)"
  by (simp add: ginv_def pcs_ok_def one_executor_def entries_executed_def mutex_ok_def
      init_def map_get_def)

lemma reachable_ginv:
  assumes "reachable ops w s" "\<not> panicked s"
  shows "ginv s"
proof -
  from assms(1) have "\<not> panicked s \<longrightarrow> ginv s"
  proof (induct rule: reachable_induct)
    case init
    show ?case by (simp add: ginv_init)
  next
    case (step s t s')
    from step(3) have "\<not> panicked s" by (simp add: step_not_panicked)
    with step(2) have "ginv s" by simp
    with step(3) show ?case by (auto intro: ginv_step)
  qed
  with assms(2) show ?thesis by simp
qed

section \<open>The removal in step 4\<close>

text \<open>
  C2. Let \<open>Do\<close> stand at step 4 (line 51, holding the mutex) for the record \<open>c\<close> it
  has just completed, in a state reached from the zero Group without a panic. Its step
  removes a record from the registry only if that record is stored under the key of the
  call and is \<open>c\<close> itself; every record other than \<open>c\<close>, under whatever key, is
  left in place. The statement \<open>delete(g.m, key)\<close> names no record: that the record
  under the key is \<open>c\<close> whenever line 51 runs is the invariant \<open>pcs_ok\<close> of the
  reachable states, so the record removed is the one just completed.
\<close>

theorem delete_removes_own_record:
  assumes "reachable ops w s" "\<not> panicked s" "t < length (threads s)"
    "op (threads s ! t) = Do k f" "pc (threads s ! t) = Delete c"
  shows "\<exists>s'. step t s = Some s' \<and>
    (\<forall>k' c'. map_get (m s) k' = Some c' \<longrightarrow> map_get (m s') k' \<noteq> Some c' \<longrightarrow>
        k' = k \<and> c' = c) \<and>
    (\<forall>k' c'. map_get (m s) k' = Some c' \<longrightarrow> c' \<noteq> c \<longrightarrow> map_get (m s') k' = Some c') \<and>
    map_get (m s) k = Some c \<and> map_get (m s') k = None"
proof -
  from reachable_ginv[OF assms(1,2)] have "pcs_ok s" by (simp add: ginv_def)
  with assms(3) have "pc_ok s (key_of (op (threads s ! t))) (pc (threads s ! t))"
    by (simp add: pcs_ok_def)
  with assms(4,5) have own: "map_get (m s) k = Some c" by simp
  from assms(2-5)
  have st: "step t s = Some (goto t (Owned c) (s\<lparr>m := map_delete (m s) k, mu := None\<rparr>))"
    by (simp add: step_def)
  show ?thesis unfolding st using own by auto
qed

theorem delete_removes_own_record_witness:
  "\<exists>s. run [0, 0, 1, 1, 0, 0, 0] (init [Do ''k'' (unit_fn 7), Do ''j'' (unit_fn 8)] ()) = Some s \<and>
     \<not> panicked s \<and> pc (threads s ! 0) = Delete 0 \<and> map_get (m s) ''k'' = Some 0 \<and>
     map_get (m s) ''j'' = Some 1 \<and>
     (\<exists>s'. step 0 s = Some s' \<and> map_get (m s') ''k'' = None \<and> map_get (m s') ''j'' = Some 1)"
proof -
  let ?i = "init [Do ''k'' (unit_fn 7), Do ''j'' (unit_fn 8)] ()"
  have "\<exists>s. run [0, 0, 1, 1, 0, 0, 0] ?i = Some s \<and> \<not> panicked s \<and>
      0 < length (threads s) \<and> op (threads s ! 0) = Do ''k'' (unit_fn 7) \<and>
      pc (threads s ! 0) = Delete 0 \<and> map_get (m s) ''j'' = Some 1"
    by (simp add: sf_defs unit_fn_def)
  then obtain s where r: "run [0, 0, 1, 1, 0, 0, 0] ?i = Some s"
    and f: "\<not> panicked s" "0 < length (threads s)" "op (threads s ! 0) = Do ''k'' (unit_fn 7)"
      "pc (threads s ! 0) = Delete 0" "map_get (m s) ''j'' = Some 1"
    by blast
  from r have "reachable [Do ''k'' (unit_fn 7), Do ''j'' (unit_fn 8)] () s"
    unfolding reachable_def by blast
  from delete_removes_own_record[OF this f(1-4)]
  obtain s' where g: "step 0 s = Some s'"
      "\<forall>k' c'. map_get (m s) k' = Some c' \<longrightarrow> c' \<noteq> 0 \<longrightarrow> map_get (m s') k' = Some c'"
      "map_get (m s) ''k'' = Some 0" "map_get (m s') ''k'' = None"
    by blast
  from g(2) f(5) have "map_get (m s') ''j'' = Some 1" by simp
  with r f g show ?thesis by blast
qed

section \<open>Waiters released by Forget\<close>

text \<open>
  C8. What a \<open>Do\<close> joiner returns after \<open>Forget\<close> has released it depends on a
  race between its read of \<open>c.val, c.err\<close> (line 38) and the store of the executor
  (line 46), which nothing orders once \<open>Forget\<close> has called \<open>Done\<close>. The same three
  calls, two schedules: goroutine 0 registers the record and is about to run its unit of
  work, goroutine 1 joins and waits, goroutine 2 runs \<open>Forget\<close>. If the joiner then
  reads before the executor stores, it returns nil and nil; if the executor stores
  \<open>(7, nil)\<close> first, the joiner returns the outcome of the unit of work.
\<close>

theorem forgotten_joiner_returns_outcome:
  "(\<exists>s. run [0, 0, 1, 1, 2, 2, 1, 1]
         (init [Do ''k'' (unit_fn 7), Do ''k'' (unit_fn 8), Forget ''k''] ()) = Some s \<and>
       \<not> panicked s \<and> pc (threads s ! 0) = Call 0 \<and>
       pc (threads s ! 1) = Returned 0 True None None) \<and>
   (\<exists>s. run [0, 0, 1, 1, 2, 2, 0, 1, 1]
         (init [Do ''k'' (unit_fn 7), Do ''k'' (unit_fn 8), Forget ''k''] ()) = Some s \<and>
       \<not> panicked s \<and> pc (threads s ! 0) = Signal 0 \<and>
       pc (threads s ! 1) = Returned 0 True (Some 7) None)"
  by (simp add: sf_defs unit_fn_def)

section \<open>The registry without Forget\<close>

lemma picks_append [simp]: "picks P (xs @ ys) = picks P xs @ picks P ys"
  by (simp add: picks_def)

lemma picks_Nil [simp]: "picks P [] = []"
  by (simp add: picks_def)

lemma picks_Invoked [simp]:
  "picks P [Invoked t c v e] = (if P t c then [(v, e)] else [])"
  by (simp add: picks_def)

lemma picks_Signalled [simp]: "picks P [Signalled t c] = []"
  by (simp add: picks_def)

lemma picks_cong:
  "(\<And>t c v e. Invoked t c v e \<in> set es \<Longrightarrow> P t c = Q t c) \<Longrightarrow> picks P es = picks Q es"
proof (induction es)
  case Nil
  show ?case by simp
next
  case (Cons x es)
  have "picks P es = picks Q es" using Cons.prems by (intro Cons.IH) auto
  moreover have "picks P [x] = picks Q [x]"
    using Cons.prems by (cases x) auto
  ultimately show ?case using picks_append[of P "[x]" es] picks_append[of Q "[x]" es] by simp
qed

lemma picks_False [simp]: "picks (\<lambda>t c. False) es = []"
  by (induction es) (auto simp: picks_def split: event.splits)

lemma picks_empty:
  assumes "\<And>t c v e. Invoked t c v e \<in> set es \<Longrightarrow> \<not> P t c"
  shows "picks P es = []"
proof -
  have "picks P es = picks (\<lambda>t c. False) es" by (rule picks_cong) (simp add: assms)
  then show ?thesis by simp
qed

lemma step_no_panic:
  assumes "finv s" "step t s = Some s'"
  shows "\<not> panicked s'"
proof -
  from assms(2) have tl: "t < length (threads s)" and np: "\<not> panicked s"
    by (simp_all add: step_not_panicked)
  from assms(1) tl have ff: "pc_ff s (threads s ! t) (pc (threads s ! t))"
    and nf: "\<not> is_Forget (op (threads s ! t))"
    by (simp_all add: finv_def pcs_ff_def no_forget_def)
  from assms(2) show ?thesis
  proof (cases rule: step_cases)
    case panic
    with ff nf show ?thesis
      by (cases "pc (threads s ! t)") (auto simp: make_chan_def)
  qed (use np tl in auto)
qed

lemma results_for_append [simp]:
  "results_for c (es @ [Invoked t c' v e]) =
     results_for c es @ (if c' = c then [(v, e)] else [])"
  "results_for c (es @ [Signalled t c']) = results_for c es"
  by (simp_all add: results_for_def)

lemma attached_valid:
  assumes "pcs_ok s" "u < length (threads s)" "attached (pc (threads s ! u)) = Some c"
  shows "c < length (calls s)"
proof -
  from assms(1,2) have "pc_ok s (key_of (op (threads s ! u))) (pc (threads s ! u))"
    by (simp add: pcs_ok_def)
  with assms(3) show ?thesis by (cases "pc (threads s ! u)") auto
qed

lemma initiator_attached: "initiator p = Some c \<Longrightarrow> attached p = Some c"
  by (cases p) (auto split: if_splits)

lemma executing_initiator: "executing p = Some c \<Longrightarrow> initiator p = Some c"
  by (cases p) auto

lemma results_fresh:
  assumes "finv s"
  shows "results_for (length (calls s)) (trace s) = []"
  unfolding results_for_def
proof (rule picks_empty)
  fix t c v e assume "Invoked t c v e \<in> set (trace s)"
  with assms have "t < length (threads s)" "initiator (pc (threads s ! t)) = Some c"
    by (auto simp: finv_def trace_ff_def)
  with assms have "c < length (calls s)"
    using attached_valid[of s t c] by (simp add: finv_def ginv_def initiator_attached)
  then show "c \<noteq> length (calls s)" by simp
qed

lemma pcs_ff_step:
  assumes "finv s" "step t s = Some s'"
  shows "pcs_ff s'"
proof -
  from assms(2) have tl: "t < length (threads s)" by (simp add: step_not_panicked)
  from assms(1) have pf: "pcs_ff s" and ox: "one_executor s" and pk: "pcs_ok s"
    by (simp_all add: finv_def ginv_def)
  from pf have ff: "\<And>u. u < length (threads s) \<Longrightarrow> pc_ff s (threads s ! u) (pc (threads s ! u))"
    by (simp add: pcs_ff_def)
  from pk have ok: "\<And>u. u < length (threads s) \<Longrightarrow>
      pc_ok s (key_of (op (threads s ! u))) (pc (threads s ! u))"
    by (simp add: pcs_ok_def)
  note fresh = results_fresh[OF assms(1)]
  from assms(2) show ?thesis
  proof (cases rule: step_cases)
    case panic
    with step_no_panic[OF assms] show ?thesis by simp
  next
    case lock
    show ?thesis unfolding pcs_ff_def
    proof (intro allI impI)
      fix u assume "u < length (threads s')"
      with lock tl ff[of u] show "pc_ff s' (threads s' ! u) (pc (threads s' ! u))"
        by (cases "u = t"; cases "pc (threads s ! u)") auto
    qed
  next
    case (join c)
    show ?thesis unfolding pcs_ff_def
    proof (intro allI impI)
      fix u assume "u < length (threads s')"
      with join tl ff[of u] show "pc_ff s' (threads s' ! u) (pc (threads s' ! u))"
        by (cases "u = t"; cases "pc (threads s ! u)") auto
    qed
  next
    case register
    show ?thesis unfolding pcs_ff_def
    proof (intro allI impI)
      fix u assume "u < length (threads s')"
      with register tl ff[of u] ok[of u] fresh
      show "pc_ff s' (threads s' ! u) (pc (threads s' ! u))"
        by (cases "u = t"; cases "pc (threads s ! u)") (auto simp: nth_append)
    qed
  next
    case (wait c)
    show ?thesis unfolding pcs_ff_def
    proof (intro allI impI)
      fix u assume "u < length (threads s')"
      with wait tl ff[of u] show "pc_ff s' (threads s' ! u) (pc (threads s' ! u))"
        by (cases "u = t"; cases "pc (threads s ! u)") auto
    qed
  next
    case (ret_shared k f c)
    show ?thesis unfolding pcs_ff_def
    proof (intro allI impI)
      fix u assume "u < length (threads s')"
      with ret_shared tl ff[of u] show "pc_ff s' (threads s' ! u) (pc (threads s' ! u))"
        by (cases "u = t"; cases "pc (threads s ! u)") auto
    qed
  next
    case (send_shared k f c)
    show ?thesis unfolding pcs_ff_def
    proof (intro allI impI)
      fix u assume "u < length (threads s')"
      with send_shared tl ff[of u] show "pc_ff s' (threads s' ! u) (pc (threads s' ! u))"
        by (cases "u = t"; cases "pc (threads s ! u)") (auto simp: make_chan_def)
    qed
  next
    case (call c f v e w')
    show ?thesis unfolding pcs_ff_def
    proof (intro allI impI)
      fix u assume ul: "u < length (threads s')"
      with call tl have u: "u < length (threads s)" by simp
      from ff[OF tl] call have w1: "wg (calls s ! c) = 1" by simp
      from ok[OF tl] call have cl: "c < length (calls s)" by simp
      from ox u tl call have ne: "u = t \<or> executing (pc (threads s ! u)) \<noteq> Some c"
        by (auto simp: one_executor_def)
      from ne ul call tl ff[of u] w1 cl
      show "pc_ff s' (threads s' ! u) (pc (threads s' ! u))"
        by (cases "u = t"; cases "pc (threads s ! u)")
           (auto simp: nth_list_update split: if_splits)
    qed
  next
    case (signal c)
    show ?thesis unfolding pcs_ff_def
    proof (intro allI impI)
      fix u assume ul: "u < length (threads s')"
      from ff[OF tl] signal have w1: "wg (calls s ! c) = 1" by simp
      from ok[OF tl] signal have cl: "c < length (calls s)" by simp
      from ul signal tl have u: "u < length (threads s)" by simp
      from ox u tl signal have ne: "u = t \<or> executing (pc (threads s ! u)) \<noteq> Some c"
        by (auto simp: one_executor_def)
      from ne ul signal tl ff[of u] w1 cl
      show "pc_ff s' (threads s' ! u) (pc (threads s' ! u))"
        by (cases "u = t"; cases "pc (threads s ! u)")
           (auto simp: nth_list_update result_of_def split: if_splits)
    qed
  next
    case (relock c)
    show ?thesis unfolding pcs_ff_def
    proof (intro allI impI)
      fix u assume "u < length (threads s')"
      with relock tl ff[of u] show "pc_ff s' (threads s' ! u) (pc (threads s' ! u))"
        by (cases "u = t"; cases "pc (threads s ! u)") auto
    qed
  next
    case (delete c)
    show ?thesis unfolding pcs_ff_def
    proof (intro allI impI)
      fix u assume "u < length (threads s')"
      with delete tl ff[of u] show "pc_ff s' (threads s' ! u) (pc (threads s' ! u))"
        by (cases "u = t"; cases "pc (threads s ! u)") auto
    qed
  next
    case (ret_own k f c)
    show ?thesis unfolding pcs_ff_def
    proof (intro allI impI)
      fix u assume "u < length (threads s')"
      with ret_own tl ff[of u] show "pc_ff s' (threads s' ! u) (pc (threads s' ! u))"
        by (cases "u = t"; cases "pc (threads s ! u)") auto
    qed
  next
    case (send_own k f c)
    show ?thesis unfolding pcs_ff_def
    proof (intro allI impI)
      fix u assume "u < length (threads s')"
      with send_own tl ff[of u] show "pc_ff s' (threads s' ! u) (pc (threads s' ! u))"
        by (cases "u = t"; cases "pc (threads s ! u)") (auto simp: make_chan_def)
    qed
  next
    case (close k f c b)
    show ?thesis unfolding pcs_ff_def
    proof (intro allI impI)
      fix u assume "u < length (threads s')"
      with close tl ff[of u] show "pc_ff s' (threads s' ! u) (pc (threads s' ! u))"
        by (cases "u = t"; cases "pc (threads s ! u)") auto
    qed
  next
    case (forget_miss k)
    with assms(1) tl show ?thesis by (auto simp: finv_def no_forget_def)
  next
    case (forget_hit k c)
    with assms(1) tl show ?thesis by (auto simp: finv_def no_forget_def)
  qed
qed

lemma no_forget_step:
  assumes "finv s" "step t s = Some s'"
  shows "no_forget s'"
proof -
  from assms(2) have tl: "t < length (threads s)" by (simp add: step_not_panicked)
  from assms(1) have nf: "no_forget s" by (simp add: finv_def)
  from assms(2) show ?thesis
  proof (cases rule: step_cases)
    case panic
    with step_no_panic[OF assms] show ?thesis by simp
  qed (use nf tl in \<open>auto simp: no_forget_def\<close>)
qed

lemma rec_ff_frame:
  assumes rf: "rec_ff s" and tl: "t < length (threads s)"
    and len: "length (threads s') = length (threads s)"
    and others: "\<And>u. u < length (threads s) \<Longrightarrow> u \<noteq> t \<Longrightarrow>
        pc (threads s' ! u) = pc (threads s ! u)"
    and cs: "calls s' = calls s" and tr: "trace s' = trace s"
    and notx: "\<And>c. executing (pc (threads s ! t)) = Some c \<Longrightarrow> wg (calls s ! c) = 0"
  shows "rec_ff s'"
  unfolding rec_ff_def
proof (intro allI impI)
  fix c assume "c < length (calls s')"
  with cs have c: "c < length (calls s)" by simp
  with rf consider
    (fin) "wg (calls s ! c) = 0" "results_for c (trace s) = [(val (calls s ! c), err (calls s ! c))]"
    | (busy) u where "wg (calls s ! c) = 1" "u < length (threads s)"
        "pc (threads s ! u) = Call c \<or> pc (threads s ! u) = Signal c"
    by (auto simp: rec_ff_def)
  then show "wg (calls s' ! c) = 0 \<and>
         results_for c (trace s') = [(val (calls s' ! c), err (calls s' ! c))] \<or>
         wg (calls s' ! c) = 1 \<and>
         (\<exists>t<length (threads s'). pc (threads s' ! t) = Call c \<or> pc (threads s' ! t) = Signal c)"
  proof cases
    case fin
    with cs tr show ?thesis by simp
  next
    case (busy u)
    from busy(3) have ex: "executing (pc (threads s ! u)) = Some c" by auto
    have "u \<noteq> t"
    proof
      assume "u = t"
      with ex notx[of c] busy(1) show False by auto
    qed
    with others[OF busy(2)] busy len cs show ?thesis by (intro disjI2) auto
  qed
qed

lemma rec_ff_step:
  assumes "finv s" "step t s = Some s'"
  shows "rec_ff s'"
proof -
  from assms(2) have tl: "t < length (threads s)" by (simp add: step_not_panicked)
  from assms(1) have rf: "rec_ff s" and pf: "pcs_ff s" and pk: "pcs_ok s"
    by (simp_all add: finv_def ginv_def)
  from pf tl have ff: "pc_ff s (threads s ! t) (pc (threads s ! t))"
    by (simp add: pcs_ff_def)
  from pk tl have ok: "pc_ok s (key_of (op (threads s ! t))) (pc (threads s ! t))"
    by (simp add: pcs_ok_def)
  from assms(2) show ?thesis
  proof (cases rule: step_cases)
    case panic
    with step_no_panic[OF assms] show ?thesis by simp
  next
    case register
    show ?thesis unfolding rec_ff_def
    proof (intro allI impI)
      fix c assume c: "c < length (calls s')"
      show "wg (calls s' ! c) = 0 \<and>
         results_for c (trace s') = [(val (calls s' ! c), err (calls s' ! c))] \<or>
         wg (calls s' ! c) = 1 \<and>
         (\<exists>t<length (threads s'). pc (threads s' ! t) = Call c \<or> pc (threads s' ! t) = Signal c)"
      proof (cases "c = length (calls s)")
        case True
        with register tl show ?thesis by (intro disjI2) (auto intro: exI[of _ t])
      next
        case False
        with c register have cl: "c < length (calls s)" by simp
        with rf consider
          (fin) "wg (calls s ! c) = 0"
            "results_for c (trace s) = [(val (calls s ! c), err (calls s ! c))]"
          | (busy) u where "wg (calls s ! c) = 1" "u < length (threads s)"
              "pc (threads s ! u) = Call c \<or> pc (threads s ! u) = Signal c"
          by (auto simp: rec_ff_def)
        then show ?thesis
        proof cases
          case fin
          with register cl show ?thesis by (simp add: nth_append)
        next
          case (busy u)
          with register have "u \<noteq> t" by auto
          with busy register cl tl show ?thesis
            by (intro disjI2) (auto simp: nth_append intro: exI[of _ u])
        qed
      qed
    qed
  next
    case (call c f v e w')
    from ok call have ccl: "c < length (calls s)" by simp
    show ?thesis unfolding rec_ff_def
    proof (intro allI impI)
      fix c' assume c: "c' < length (calls s')"
      with call have cl: "c' < length (calls s)" by simp
      show "wg (calls s' ! c') = 0 \<and>
         results_for c' (trace s') = [(val (calls s' ! c'), err (calls s' ! c'))] \<or>
         wg (calls s' ! c') = 1 \<and>
         (\<exists>t<length (threads s'). pc (threads s' ! t) = Call c' \<or> pc (threads s' ! t) = Signal c')"
      proof (cases "c' = c")
        case True
        with call tl ff ccl show ?thesis by (intro disjI2) (auto intro: exI[of _ t])
      next
        case False
        from rf cl consider
          (fin) "wg (calls s ! c') = 0"
            "results_for c' (trace s) = [(val (calls s ! c'), err (calls s ! c'))]"
          | (busy) u where "wg (calls s ! c') = 1" "u < length (threads s)"
              "pc (threads s ! u) = Call c' \<or> pc (threads s ! u) = Signal c'"
          by (auto simp: rec_ff_def)
        then show ?thesis
        proof cases
          case fin
          with call False show ?thesis by simp
        next
          case (busy u)
          with call False have "u \<noteq> t" by auto
          with busy call False tl show ?thesis
            by (intro disjI2) (auto intro: exI[of _ u])
        qed
      qed
    qed
  next
    case (signal c)
    from ok signal have ccl: "c < length (calls s)" by simp
    show ?thesis unfolding rec_ff_def
    proof (intro allI impI)
      fix c' assume c: "c' < length (calls s')"
      with signal have cl: "c' < length (calls s)" by simp
      show "wg (calls s' ! c') = 0 \<and>
         results_for c' (trace s') = [(val (calls s' ! c'), err (calls s' ! c'))] \<or>
         wg (calls s' ! c') = 1 \<and>
         (\<exists>t<length (threads s'). pc (threads s' ! t) = Call c' \<or> pc (threads s' ! t) = Signal c')"
      proof (cases "c' = c")
        case True
        with signal tl ff ccl show ?thesis by (intro disjI1) auto
      next
        case False
        from rf cl consider
          (fin) "wg (calls s ! c') = 0"
            "results_for c' (trace s) = [(val (calls s ! c'), err (calls s ! c'))]"
          | (busy) u where "wg (calls s ! c') = 1" "u < length (threads s)"
              "pc (threads s ! u) = Call c' \<or> pc (threads s ! u) = Signal c'"
          by (auto simp: rec_ff_def)
        then show ?thesis
        proof cases
          case fin
          with signal False show ?thesis by simp
        next
          case (busy u)
          with signal False have "u \<noteq> t" by auto
          with busy signal False tl show ?thesis
            by (intro disjI2) (auto intro: exI[of _ u])
        qed
      qed
    qed
  next
    case (forget_miss k)
    with assms(1) tl show ?thesis by (auto simp: finv_def no_forget_def)
  next
    case (forget_hit k c)
    with assms(1) tl show ?thesis by (auto simp: finv_def no_forget_def)
  qed (rule rec_ff_frame[OF rf tl]; use tl ff in auto)+
qed

lemma trace_ff_frame:
  assumes tf: "trace_ff s" and tl: "t < length (threads s)"
    and len: "length (threads s') = length (threads s)"
    and others: "\<And>u. u < length (threads s) \<Longrightarrow> u \<noteq> t \<Longrightarrow>
        pc (threads s' ! u) = pc (threads s ! u)"
    and tr: "\<And>u c v e. Invoked u c v e \<in> set (trace s') \<Longrightarrow>
        Invoked u c v e \<in> set (trace s) \<or>
        (u = t \<and> initiator (pc (threads s' ! t)) = Some c \<and> pc (threads s' ! t) \<noteq> Call c)"
    and keep: "\<And>c. initiator (pc (threads s ! t)) = Some c \<Longrightarrow> pc (threads s ! t) \<noteq> Call c \<Longrightarrow>
        initiator (pc (threads s' ! t)) = Some c \<and> pc (threads s' ! t) \<noteq> Call c"
  shows "trace_ff s'"
  unfolding trace_ff_def
proof (intro allI impI)
  fix u c v e assume "Invoked u c v e \<in> set (trace s')"
  from tr[OF this] show "u < length (threads s') \<and> initiator (pc (threads s' ! u)) = Some c \<and>
      pc (threads s' ! u) \<noteq> Call c"
  proof
    assume "Invoked u c v e \<in> set (trace s)"
    with tf have u: "u < length (threads s)" "initiator (pc (threads s ! u)) = Some c"
      "pc (threads s ! u) \<noteq> Call c"
      by (auto simp: trace_ff_def)
    show ?thesis
    proof (cases "u = t")
      case True
      with u keep[of c] len show ?thesis by simp
    next
      case False
      with u others[of u] len show ?thesis by simp
    qed
  next
    assume "u = t \<and> initiator (pc (threads s' ! t)) = Some c \<and> pc (threads s' ! t) \<noteq> Call c"
    with tl len show ?thesis by simp
  qed
qed

lemma trace_ff_step:
  assumes "finv s" "step t s = Some s'"
  shows "trace_ff s'"
proof -
  from assms(2) have tl: "t < length (threads s)" by (simp add: step_not_panicked)
  from assms(1) have tf: "trace_ff s" by (simp add: finv_def)
  from assms(2) show ?thesis
  proof (cases rule: step_cases)
    case panic
    with step_no_panic[OF assms] show ?thesis by simp
  qed (rule trace_ff_frame[OF tf tl]; use tl in \<open>auto split: if_splits\<close>)+
qed

lemma one_initiator_frame:
  assumes oi: "one_initiator s" and tl: "t < length (threads s)"
    and len: "length (threads s') = length (threads s)"
    and others: "\<And>u. u < length (threads s) \<Longrightarrow> u \<noteq> t \<Longrightarrow>
        pc (threads s' ! u) = pc (threads s ! u)"
    and cs: "length (calls s') = length (calls s)"
    and same: "initiator (pc (threads s' ! t)) = initiator (pc (threads s ! t))"
  shows "one_initiator s'"
proof -
  have eq: "\<And>u. u < length (threads s) \<Longrightarrow>
      initiator (pc (threads s' ! u)) = initiator (pc (threads s ! u))"
    using others same by (case_tac "u = t") auto
  with oi len cs show ?thesis unfolding one_initiator_def by (simp; metis)
qed

lemma one_initiator_step:
  assumes "finv s" "step t s = Some s'"
  shows "one_initiator s'"
proof -
  from assms(2) have tl: "t < length (threads s)" by (simp add: step_not_panicked)
  from assms(1) have oi: "one_initiator s" and pk: "pcs_ok s"
    by (simp_all add: finv_def ginv_def)
  from assms(2) show ?thesis
  proof (cases rule: step_cases)
    case panic
    with step_no_panic[OF assms] show ?thesis by simp
  next
    case register
    have fresh: "\<And>u. u < length (threads s) \<Longrightarrow>
        initiator (pc (threads s ! u)) \<noteq> Some (length (calls s))"
      using attached_valid[OF pk] initiator_attached by fastforce
    have old: "\<And>u. u < length (threads s) \<Longrightarrow> u \<noteq> t \<Longrightarrow>
        pc (threads s' ! u) = pc (threads s ! u)"
      using register tl by simp
    have new: "pc (threads s' ! t) = Call (length (calls s))"
      "length (threads s') = length (threads s)"
      "length (calls s') = Suc (length (calls s))"
      using register tl by simp_all
    have none: "initiator (pc (threads s ! t)) = None" using register by simp
    show ?thesis unfolding one_initiator_def
    proof (intro conjI allI impI)
      fix u u' c assume u: "u < length (threads s')" "u' < length (threads s')"
        and i: "initiator (pc (threads s' ! u)) = Some c" "initiator (pc (threads s' ! u')) = Some c"
      show "u = u'"
      proof (cases "u = t"; cases "u' = t")
        assume "u = t" "u' \<noteq> t"
        with u i new old[of u'] fresh[of u'] show ?thesis by simp
      next
        assume "u \<noteq> t" "u' = t"
        with u i new old[of u] fresh[of u] show ?thesis by simp
      next
        assume "u \<noteq> t" "u' \<noteq> t"
        with u i new old[of u] old[of u'] oi show ?thesis by (simp add: one_initiator_def)
      qed simp
    next
      fix c assume c: "c < length (calls s')"
      show "\<exists>u < length (threads s'). initiator (pc (threads s' ! u)) = Some c"
      proof (cases "c = length (calls s)")
        case True
        with new tl show ?thesis by (intro exI[of _ t]) simp
      next
        case False
        with c new have "c < length (calls s)" by simp
        with oi obtain u where u: "u < length (threads s)" "initiator (pc (threads s ! u)) = Some c"
          by (auto simp: one_initiator_def)
        with none have "u \<noteq> t" by auto
        with u old[of u] new show ?thesis by (intro exI[of _ u]) simp
      qed
    qed
  qed (rule one_initiator_frame[OF oi tl]; use tl in \<open>auto split: if_splits\<close>)+
qed

lemma same_key_frame:
  assumes sk: "same_key s" and tl: "t < length (threads s)"
    and len: "length (threads s') = length (threads s)"
    and others: "\<And>u. u < length (threads s) \<Longrightarrow> u \<noteq> t \<Longrightarrow>
        pc (threads s' ! u) = pc (threads s ! u)"
    and ops: "\<And>u. op (threads s' ! u) = op (threads s ! u)"
    and same: "attached (pc (threads s' ! t)) = attached (pc (threads s ! t))"
  shows "same_key s'"
  unfolding same_key_def
proof (intro allI impI)
  fix u u' c assume u: "u < length (threads s')" "u' < length (threads s')"
    and a: "attached (pc (threads s' ! u)) = Some c" "attached (pc (threads s' ! u')) = Some c"
  have eq: "\<And>x. x < length (threads s) \<Longrightarrow>
      attached (pc (threads s' ! x)) = attached (pc (threads s ! x))"
  proof -
    fix x assume "x < length (threads s)"
    then show "attached (pc (threads s' ! x)) = attached (pc (threads s ! x))"
      using others[of x] same by (cases "x = t") simp_all
  qed
  from u len have ul: "u < length (threads s)" "u' < length (threads s)" by simp_all
  from a eq[OF ul(1)] eq[OF ul(2)] have "attached (pc (threads s ! u)) = Some c"
    "attached (pc (threads s ! u')) = Some c" by simp_all
  with sk ul have "key_of (op (threads s ! u)) = key_of (op (threads s ! u'))"
    unfolding same_key_def by blast
  then show "key_of (op (threads s' ! u)) = key_of (op (threads s' ! u'))"
    by (simp only: ops)
qed

lemma same_key_step:
  assumes "finv s" "step t s = Some s'"
  shows "same_key s'"
proof -
  from assms(2) have tl: "t < length (threads s)" by (simp add: step_not_panicked)
  from assms(1) have sk: "same_key s" and pk: "pcs_ok s" and ee: "entries_executed s"
    by (simp_all add: finv_def ginv_def)
  from assms(2) show ?thesis
  proof (cases rule: step_cases)
    case panic
    with step_no_panic[OF assms] show ?thesis by simp
  next
    case (join c)
    from ee join obtain x where x: "x < length (threads s)"
      "executing (pc (threads s ! x)) = Some c"
      "key_of (op (threads s ! x)) = key_of (op (threads s ! t))"
      by (auto simp: entries_executed_def)
    then have ax: "attached (pc (threads s ! x)) = Some c"
      by (simp add: executing_initiator initiator_attached)
    from x join have xt: "x \<noteq> t" by auto
    have key: "\<And>u. u < length (threads s) \<Longrightarrow> attached (pc (threads s' ! u)) = Some c \<Longrightarrow>
        key_of (op (threads s ! u)) = key_of (op (threads s ! t))"
    proof -
      fix u assume u: "u < length (threads s)" "attached (pc (threads s' ! u)) = Some c"
      show "key_of (op (threads s ! u)) = key_of (op (threads s ! t))"
      proof (cases "u = t")
        case True
        then show ?thesis by simp
      next
        case False
        with u join tl have "attached (pc (threads s ! u)) = Some c" by simp
        with sk u(1) x(1) ax have "key_of (op (threads s ! u)) = key_of (op (threads s ! x))"
          unfolding same_key_def by blast
        with x(3) show ?thesis by simp
      qed
    qed
    show ?thesis unfolding same_key_def
    proof (intro allI impI)
      fix u u' c' assume u: "u < length (threads s')" "u' < length (threads s')"
        and a: "attached (pc (threads s' ! u)) = Some c'" "attached (pc (threads s' ! u')) = Some c'"
      from u join have ul: "u < length (threads s)" "u' < length (threads s)" by simp_all
      show "key_of (op (threads s' ! u)) = key_of (op (threads s' ! u'))"
      proof (cases "c' = c")
        case True
        with key[OF ul(1)] key[OF ul(2)] a join show ?thesis by simp
      next
        case False
        with a join tl ul have "u \<noteq> t" "u' \<noteq> t" by auto
        with a join tl ul have "attached (pc (threads s ! u)) = Some c'"
          "attached (pc (threads s ! u')) = Some c'" by simp_all
        with sk ul have "key_of (op (threads s ! u)) = key_of (op (threads s ! u'))"
          unfolding same_key_def by blast
        with join show ?thesis by simp
      qed
    qed
  next
    case register
    have fresh: "\<And>u. u < length (threads s) \<Longrightarrow>
        attached (pc (threads s ! u)) \<noteq> Some (length (calls s))"
    proof
      fix u assume "u < length (threads s)" "attached (pc (threads s ! u)) = Some (length (calls s))"
      from attached_valid[OF pk this] show False by simp
    qed
    show ?thesis unfolding same_key_def
    proof (intro allI impI)
      fix u u' c' assume u: "u < length (threads s')" "u' < length (threads s')"
        and a: "attached (pc (threads s' ! u)) = Some c'" "attached (pc (threads s' ! u')) = Some c'"
      from u register have ul: "u < length (threads s)" "u' < length (threads s)" by simp_all
      show "key_of (op (threads s' ! u)) = key_of (op (threads s' ! u'))"
      proof (cases "u = t \<or> u' = t")
        case True
        have "u = u'"
        proof (rule ccontr)
          assume ne: "u \<noteq> u'"
          from True show False
          proof
            assume "u = t"
            with ne a register tl ul fresh[of u'] show False by simp
          next
            assume "u' = t"
            with ne a register tl ul fresh[of u] show False by simp
          qed
        qed
        then show ?thesis by simp
      next
        case False
        with a register tl ul have "attached (pc (threads s ! u)) = Some c'"
          "attached (pc (threads s ! u')) = Some c'" by simp_all
        with sk ul have "key_of (op (threads s ! u)) = key_of (op (threads s ! u'))"
          unfolding same_key_def by blast
        with register show ?thesis by simp
      qed
    qed
  qed (rule same_key_frame[OF sk tl]; use tl in \<open>auto split: if_splits\<close>)+
qed

lemma finv_step:
  assumes "finv s" "step t s = Some s'"
  shows "finv s'"
proof -
  note np = step_no_panic[OF assms]
  from assms(1) have "ginv s" by (simp add: finv_def)
  from ginv_step[OF this assms(2) np] np no_forget_step[OF assms] pcs_ff_step[OF assms]
    rec_ff_step[OF assms] trace_ff_step[OF assms] one_initiator_step[OF assms]
    same_key_step[OF assms]
  show ?thesis by (simp add: finv_def)
qed

lemma finv_init:
  assumes "\<forall>x \<in> set ops. \<not> is_Forget x"
  shows "finv (init ops w)"
proof -
  have "ginv (init ops w)" by (rule ginv_init)
  moreover have "\<not> panicked (init ops w)" "no_forget (init ops w)" "pcs_ff (init ops w)"
    "rec_ff (init ops w)" "trace_ff (init ops w)" "one_initiator (init ops w)"
    "same_key (init ops w)"
    using assms
    by (simp_all add: no_forget_def pcs_ff_def rec_ff_def trace_ff_def one_initiator_def
        same_key_def init_def)
  ultimately show ?thesis by (simp add: finv_def)
qed

lemma reachable_finv:
  assumes "reachable ops w s" "\<forall>x \<in> set ops. \<not> is_Forget x"
  shows "finv s"
  using assms(1)
proof (induct rule: reachable_induct)
  case init
  show ?case by (rule finv_init[OF assms(2)])
next
  case (step s t s')
  then show ?case by (simp add: finv_step)
qed

section \<open>Runs without Forget come to an end\<close>

lemma step_ops:
  assumes "step t s = Some s'" "\<not> panicked s'"
  shows "map op (threads s') = map op (threads s)"
proof -
  have g: "\<And>p x. map op (threads (goto t p x)) = map op (threads x)"
    by (rule nth_equalityI) simp_all
  have c: "\<And>y x. map op (threads (set_ch t y x)) = map op (threads x)"
    by (rule nth_equalityI) simp_all
  from assms(1) show ?thesis
  proof (cases rule: step_cases)
    case panic
    with assms(2) show ?thesis by simp
  qed (simp_all add: g c)
qed

lemma reachable_ops:
  assumes "reachable ops w s" "\<not> panicked s"
  shows "map op (threads s) = ops"
proof -
  from assms(1) have "\<not> panicked s \<longrightarrow> map op (threads s) = ops"
  proof (induct rule: reachable_induct)
    case init
    show ?case by (simp add: init_def comp_def)
  next
    case (step s t s')
    from step(3) have "\<not> panicked s" by (simp add: step_not_panicked)
    with step(2) have "map op (threads s) = ops" by simp
    with step(3) show ?case by (auto simp: step_ops)
  qed
  with assms(2) show ?thesis by simp
qed

lemma reachable_op_nth:
  assumes "reachable ops w s" "\<not> panicked s"
  shows "length (threads s) = length ops" "t < length ops \<Longrightarrow> op (threads s ! t) = ops ! t"
proof -
  from reachable_ops[OF assms] have e: "map op (threads s) = ops" .
  then show l: "length (threads s) = length ops" by (metis length_map)
  assume "t < length ops"
  with e l show "op (threads s ! t) = ops ! t" by (metis nth_map)
qed

lemma reachable_run:
  assumes "reachable ops w s" "run sched s = Some s'"
  shows "reachable ops w s'"
proof -
  from assms(1) obtain sc where "run sc (init ops w) = Some s" by (auto simp: reachable_def)
  with assms(2) have "run (sc @ sched) (init ops w) = Some s'" by (simp add: run_append)
  then show ?thesis unfolding reachable_def by blast
qed

lemma attached_step:
  assumes "step u s = Some s'" "\<not> panicked s'" "t < length (threads s)"
    "attached (pc (threads s ! t)) = Some c"
  shows "attached (pc (threads s' ! t)) = Some c"
proof -
  from assms(1) have ul: "u < length (threads s)" by (simp add: step_not_panicked)
  from assms(1) show ?thesis
  proof (cases rule: step_cases)
    case panic
    with assms(2) show ?thesis by simp
  qed (use assms(3,4) ul in \<open>auto split: if_splits\<close>)
qed

lemma finv_run:
  assumes "finv s" "run sched s = Some s'"
  shows "finv s'"
  using assms
proof (induction sched arbitrary: s)
  case Nil
  then show ?case by simp
next
  case (Cons u sched)
  from Cons.prems(2) obtain s1 where s1: "step u s = Some s1" "run sched s1 = Some s'"
    by (auto split: option.splits)
  from Cons.IH[OF finv_step[OF Cons.prems(1) s1(1)] s1(2)] show ?case .
qed

lemma attached_run:
  assumes "finv s" "run sched s = Some s'" "t < length (threads s)"
    "attached (pc (threads s ! t)) = Some c"
  shows "attached (pc (threads s' ! t)) = Some c"
  using assms
proof (induction sched arbitrary: s)
  case Nil
  then show ?case by simp
next
  case (Cons u sched)
  from Cons.prems(2) obtain s1 where s1: "step u s = Some s1" "run sched s1 = Some s'"
    by (auto split: option.splits)
  from finv_step[OF Cons.prems(1) s1(1)] have f1: "finv s1" .
  then have np: "\<not> panicked s1" by (simp add: finv_def)
  from attached_step[OF s1(1) np Cons.prems(3,4)]
  have a1: "attached (pc (threads s1 ! t)) = Some c" .
  from step_ops[OF s1(1) np] have "length (threads s1) = length (threads s)"
    by (metis length_map)
  with Cons.prems(3) have "t < length (threads s1)" by simp
  from Cons.IH[OF f1 s1(2) this a1] show ?case .
qed

lemma exec_entry:
  assumes "finv s" "i < length (threads s)" "executing (pc (threads s ! i)) = Some c"
  shows "map_get (m s) (key_of (op (threads s ! i))) = Some c"
proof -
  from assms(1,2) have "pc_ok s (key_of (op (threads s ! i))) (pc (threads s ! i))"
    "pc_ff s (threads s ! i) (pc (threads s ! i))"
    by (simp_all add: finv_def ginv_def pcs_ok_def pcs_ff_def)
  with assms(3) show ?thesis
    by (cases "pc (threads s ! i)") (auto split: if_splits)
qed

lemma flight_record:
  assumes "finv s" "t < length (threads s)" "in_flight (pc (threads s ! t))"
    and all: "\<forall>u < length (threads s).
        key_of (op (threads s ! u)) = key_of (op (threads s ! t)) \<longrightarrow> in_flight (pc (threads s ! u))"
  shows "\<exists>c. attached (pc (threads s ! t)) = Some c \<and>
     map_get (m s) (key_of (op (threads s ! t))) = Some c"
proof -
  from assms(3) obtain c where c: "attached (pc (threads s ! t)) = Some c"
    by (cases "pc (threads s ! t)") auto
  from assms(1) have pk: "pcs_ok s" and oi: "one_initiator s" and sk: "same_key s"
    by (simp_all add: finv_def ginv_def)
  from attached_valid[OF pk assms(2) c] oi obtain i where i: "i < length (threads s)"
    "initiator (pc (threads s ! i)) = Some c"
    by (auto simp: one_initiator_def)
  then have ai: "attached (pc (threads s ! i)) = Some c" by (simp add: initiator_attached)
  with sk i(1) assms(2) c have k: "key_of (op (threads s ! i)) = key_of (op (threads s ! t))"
    unfolding same_key_def by blast
  with all i(1) have "in_flight (pc (threads s ! i))" by simp
  with i(2) have "executing (pc (threads s ! i)) = Some c"
    by (cases "pc (threads s ! i)") (auto split: if_splits)
  from exec_entry[OF assms(1) i(1) this] k c show ?thesis by simp
qed

lemma sum_list_decrease:
  fixes xs ys :: "nat list"
  assumes "length ys = length xs" "t < length xs" "ys ! t < xs ! t"
    "\<And>u. u < length xs \<Longrightarrow> u \<noteq> t \<Longrightarrow> ys ! u = xs ! u"
  shows "sum_list ys < sum_list xs"
proof -
  have "ys = xs[t := ys ! t]"
    using assms by (intro nth_equalityI) (auto simp: nth_list_update)
  then have "sum_list ys = sum_list (xs[t := ys ! t])" by simp
  also have "\<dots> = sum_list xs + ys ! t - xs ! t"
    using assms(2) by (rule sum_list_update)
  also have "\<dots> < sum_list xs"
    using assms(2,3) member_le_sum_list[of "xs ! t" xs] by (simp add: less_diff_conv2)
  finally show ?thesis .
qed

lemma step_decreases:
  assumes "step t s = Some s'" "\<not> panicked s'"
  shows "steps_left s' < steps_left s"
  unfolding steps_left_def
proof (rule sum_list_decrease[where t = t])
  from assms(1) have tl: "t < length (threads s)" by (simp add: step_not_panicked)
  from step_ops[OF assms] have len: "length (threads s') = length (threads s)"
    by (metis length_map)
  then show "length (map (\<lambda>th. rank (pc th)) (threads s')) = length (map (\<lambda>th. rank (pc th)) (threads s))"
    by simp
  from tl show "t < length (map (\<lambda>th. rank (pc th)) (threads s))" by simp
  from assms(1) have "rank (pc (threads s' ! t)) < rank (pc (threads s ! t))"
  proof (cases rule: step_cases)
    case panic
    with assms(2) show ?thesis by simp
  qed (use tl in auto)
  with tl len show "map (\<lambda>th. rank (pc th)) (threads s') ! t < map (\<lambda>th. rank (pc th)) (threads s) ! t"
    by simp
  fix u assume u: "u < length (map (\<lambda>th. rank (pc th)) (threads s))" "u \<noteq> t"
  from assms(1) have "pc (threads s' ! u) = pc (threads s ! u)"
  proof (cases rule: step_cases)
    case panic
    with assms(2) show ?thesis by simp
  qed (use tl u in auto)
  with u len show "map (\<lambda>th. rank (pc th)) (threads s') ! u = map (\<lambda>th. rank (pc th)) (threads s) ! u"
    by simp
qed

lemma progress:
  assumes "finv s" "t < length (threads s)" "\<not> final (pc (threads s ! t))"
  shows "\<exists>u s'. step u s = Some s'"
proof -
  from assms(1) have np: "\<not> panicked s" and nf: "no_forget s" and mx: "mutex_ok s"
    and pf: "pcs_ff s" and rf: "rec_ff s" and pk: "pcs_ok s"
    by (simp_all add: finv_def ginv_def)
  have enabled: "\<And>u. u < length (threads s) \<Longrightarrow>
      (case pc (threads s ! u) of
         Locked \<Rightarrow> True | Delete c \<Rightarrow> True | Call c \<Rightarrow> True | Signal c \<Rightarrow> True
       | Lock \<Rightarrow> mu s = None | Relock c \<Rightarrow> mu s = None
       | Wait c \<Rightarrow> wg (calls s ! c) = 0
       | Joined c \<Rightarrow> True | Owned c \<Rightarrow> True | Close c b \<Rightarrow> True
       | _ \<Rightarrow> False) \<Longrightarrow> \<exists>s'. step u s = Some s'"
  proof -
    fix u assume u: "u < length (threads s)"
      and e: "case pc (threads s ! u) of
         Locked \<Rightarrow> True | Delete c \<Rightarrow> True | Call c \<Rightarrow> True | Signal c \<Rightarrow> True
       | Lock \<Rightarrow> mu s = None | Relock c \<Rightarrow> mu s = None
       | Wait c \<Rightarrow> wg (calls s ! c) = 0
       | Joined c \<Rightarrow> True | Owned c \<Rightarrow> True | Close c b \<Rightarrow> True
       | _ \<Rightarrow> False"
    from pf u have ff: "pc_ff s (threads s ! u) (pc (threads s ! u))" by (simp add: pcs_ff_def)
    from nf u have "\<not> is_Forget (op (threads s ! u))" by (simp add: no_forget_def)
    then show "\<exists>s'. step u s = Some s'"
    proof (cases "op (threads s ! u)")
      case (Do k f)
      with np u e ff show ?thesis
        by (cases "pc (threads s ! u)") (auto simp: step_def wg_Wait_def)
    next
      case (DoChan k f)
      with np u e ff show ?thesis
        by (cases "pc (threads s ! u)")
           (auto simp: step_def wg_Wait_def send_def chan_send_def chan_close_def make_chan_def)
    qed simp
  qed
  show ?thesis
  proof (cases "mu s")
    case (Some h)
    with mx have h: "h < length (threads s)" "holds_mu (pc (threads s ! h))"
      by (auto simp: mutex_ok_def)
    then have "\<exists>s'. step h s = Some s'"
      by (intro enabled) (cases "pc (threads s ! h)"; simp)+
    then show ?thesis by blast
  next
    case None
    with mx assms(2) have nh: "\<not> holds_mu (pc (threads s ! t))" by (auto simp: mutex_ok_def)
    from pf assms(2) have ff: "pc_ff s (threads s ! t) (pc (threads s ! t))"
      by (simp add: pcs_ff_def)
    show ?thesis
    proof (cases "\<exists>c. pc (threads s ! t) = Wait c \<and> wg (calls s ! c) \<noteq> 0")
      case True
      then obtain c where c: "pc (threads s ! t) = Wait c" "wg (calls s ! c) \<noteq> 0" by blast
      from attached_valid[OF pk assms(2)] c have "c < length (calls s)" by simp
      with rf c(2) obtain u where u: "u < length (threads s)"
        "pc (threads s ! u) = Call c \<or> pc (threads s ! u) = Signal c"
        by (auto simp: rec_ff_def)
      then have "\<exists>s'. step u s = Some s'" by (intro enabled) auto
      then show ?thesis by blast
    next
      case False
      with assms(3) nh ff None have "\<exists>s'. step t s = Some s'"
        by (intro enabled[OF assms(2)]) (cases "pc (threads s ! t)"; simp)
      then show ?thesis by blast
    qed
  qed
qed

lemma completes:
  assumes "finv s"
  shows "\<exists>sched s'. run sched s = Some s' \<and>
     (\<forall>t < length (threads s'). final (pc (threads s' ! t)))"
  using assms
proof (induction "steps_left s" arbitrary: s rule: less_induct)
  case less
  show ?case
  proof (cases "\<forall>t < length (threads s). final (pc (threads s ! t))")
    case True
    then have "run [] s = Some s \<and> (\<forall>t < length (threads s). final (pc (threads s ! t)))"
      by simp
    then show ?thesis by blast
  next
    case False
    then obtain t where "t < length (threads s)" "\<not> final (pc (threads s ! t))" by blast
    from progress[OF less.prems this] obtain u s1 where s1: "step u s = Some s1" by blast
    from finv_step[OF less.prems s1] have f1: "finv s1" .
    then have "\<not> panicked s1" by (simp add: finv_def)
    from step_decreases[OF s1 this] less.hyps[OF _ f1]
    obtain sched s' where r: "run sched s1 = Some s'"
      "\<forall>t < length (threads s'). final (pc (threads s' ! t))" by blast
    from s1 r(1) have "run (u # sched) s = Some s'" by simp
    with r(2) show ?thesis by blast
  qed
qed

section \<open>Calls that share a record\<close>

lemma results_at_most_one:
  assumes "finv s" "c < length (calls s)"
  shows "length (results_for c (trace s)) \<le> 1"
proof -
  from assms have "(wg (calls s ! c) = 0 \<and>
         results_for c (trace s) = [(val (calls s ! c), err (calls s ! c))]) \<or>
        (wg (calls s ! c) = 1 \<and>
         (\<exists>t < length (threads s). pc (threads s ! t) = Call c \<or> pc (threads s ! t) = Signal c))"
    by (simp add: finv_def rec_ff_def)
  then show ?thesis
  proof
    assume "wg (calls s ! c) = 0 \<and>
         results_for c (trace s) = [(val (calls s ! c), err (calls s ! c))]"
    then show ?thesis by simp
  next
    assume "wg (calls s ! c) = 1 \<and>
         (\<exists>t < length (threads s). pc (threads s ! t) = Call c \<or> pc (threads s ! t) = Signal c)"
    then obtain t where t: "t < length (threads s)"
      "pc (threads s ! t) = Call c \<or> pc (threads s ! t) = Signal c" by blast
    with assms(1) have "pc_ff s (threads s ! t) (pc (threads s ! t))"
      by (simp add: finv_def pcs_ff_def)
    with t(2) show ?thesis by auto
  qed
qed

lemma returned_result:
  assumes "finv s" "t < length (threads s)" "pc (threads s ! t) = Returned c b v e"
  shows "results_for c (trace s) = [(v, e)]"
proof -
  from assms have ff: "wg (calls s ! c) = 0" "v = val (calls s ! c)" "e = err (calls s ! c)"
    by (auto simp: finv_def pcs_ff_def)
  from assms have "c < length (calls s)"
    using attached_valid[of s t c] by (simp add: finv_def ginv_def)
  with assms(1) ff show ?thesis by (auto simp: finv_def rec_ff_def)
qed

lemma closed_result:
  assumes "finv s" "t < length (threads s)" "pc (threads s ! t) = Closed c b"
  shows "\<exists>v e. results_for c (trace s) = [(v, e)] \<and>
    ch (threads s ! t) = \<lparr>buf = [\<lparr>Val = v, Err = e, Shared = b\<rparr>], closed = True\<rparr>"
proof -
  from assms have ff: "wg (calls s ! c) = 0"
    "ch (threads s ! t) = \<lparr>buf = [result_of (calls s ! c) b], closed = True\<rparr>"
    by (auto simp: finv_def pcs_ff_def)
  from assms have "c < length (calls s)"
    using attached_valid[of s t c] by (simp add: finv_def ginv_def)
  with assms(1) ff show ?thesis by (auto simp: finv_def rec_ff_def result_of_def)
qed

lemma key_invocations:
  assumes f: "finv s" and ops: "map op (threads s) = ops"
    and att: "\<forall>t < length ops. key_of (ops ! t) = k \<longrightarrow> attached (pc (threads s ! t)) = Some c"
    and ne: "\<exists>t < length ops. key_of (ops ! t) = k"
  shows "invocations ops k (trace s) = results_for c (trace s)"
  unfolding invocations_def results_for_def
proof (rule picks_cong)
  fix u c' v e assume "Invoked u c' v e \<in> set (trace s)"
  with f have u: "u < length (threads s)" "initiator (pc (threads s ! u)) = Some c'"
    by (auto simp: finv_def trace_ff_def)
  then have au: "attached (pc (threads s ! u)) = Some c'" by (simp add: initiator_attached)
  from ops have len: "length (threads s) = length ops" by (metis length_map)
  from ops have opn: "\<And>x. x < length ops \<Longrightarrow> op (threads s ! x) = ops ! x" by (metis nth_map len)
  show "(key_of (ops ! u) = k) = (c' = c)"
  proof
    assume "key_of (ops ! u) = k"
    with att u(1) len au show "c' = c" by auto
  next
    assume cc: "c' = c"
    from ne obtain t0 where t0: "t0 < length ops" "key_of (ops ! t0) = k" by blast
    with att have "attached (pc (threads s ! t0)) = Some c" by simp
    with f au cc u(1) t0(1) len
    have "key_of (op (threads s ! u)) = key_of (op (threads s ! t0))"
      unfolding finv_def same_key_def by (metis (no_types, lifting))
    with opn[of u] opn[of t0] u(1) t0 len show "key_of (ops ! u) = k" by simp
  qed
qed

lemma flight_same_record:
  assumes f: "finv s" and ops: "map op (threads s) = ops"
    and conc: "\<forall>t < length ops. key_of (ops ! t) = k \<longrightarrow> in_flight (pc (threads s ! t))"
    and ne: "\<exists>t < length ops. key_of (ops ! t) = k"
  shows "\<exists>c. map_get (m s) k = Some c \<and>
     (\<forall>t < length ops. key_of (ops ! t) = k \<longrightarrow> attached (pc (threads s ! t)) = Some c)"
proof -
  from ops have len: "length (threads s) = length ops" by (metis length_map)
  from ops have opn: "\<And>x. x < length ops \<Longrightarrow> op (threads s ! x) = ops ! x" by (metis nth_map len)
  have each: "\<And>t. t < length ops \<Longrightarrow> key_of (ops ! t) = k \<Longrightarrow>
      \<exists>c. attached (pc (threads s ! t)) = Some c \<and> map_get (m s) k = Some c"
  proof -
    fix t assume t: "t < length ops" "key_of (ops ! t) = k"
    have "\<forall>u < length (threads s).
        key_of (op (threads s ! u)) = key_of (op (threads s ! t)) \<longrightarrow> in_flight (pc (threads s ! u))"
      using conc t len opn by simp
    from flight_record[OF f _ _ this] t conc len opn
    show "\<exists>c. attached (pc (threads s ! t)) = Some c \<and> map_get (m s) k = Some c" by simp
  qed
  from ne obtain t0 where t0: "t0 < length ops" "key_of (ops ! t0) = k" by blast
  from each[OF t0] obtain c where c: "map_get (m s) k = Some c" by blast
  have "\<forall>t < length ops. key_of (ops ! t) = k \<longrightarrow> attached (pc (threads s ! t)) = Some c"
  proof (intro allI impI)
    fix t assume "t < length ops" "key_of (ops ! t) = k"
    from each[OF this] c show "attached (pc (threads s ! t)) = Some c" by auto
  qed
  with c show ?thesis by blast
qed

text \<open>
  C1. In a run without \<open>Forget\<close>, let every call with key \<open>k\<close> be a \<open>Do\<close> call
  that is in flight in the state \<open>s\<close>: it has done step 1 (so the registry has seen
  it; a call that has not yet taken the mutex is, for the registry, not yet issued), and
  none has returned or, as the executor, removed the record. Then in every state \<open>s'\<close>
  that the run reaches afterwards the units of work of these calls have been invoked at
  most once in all, and every one of the calls that has returned has returned the value and
  the error of that one invocation. The run can always be continued until the unit of work
  has been invoked exactly once and all the calls have returned its value and error.
\<close>

theorem do_runs_once:
  assumes reach: "reachable ops w s" and nf: "\<forall>x \<in> set ops. \<not> is_Forget x"
    and conc: "\<forall>t < length ops. key_of (ops ! t) = k \<longrightarrow>
        is_Do (ops ! t) \<and> in_flight (pc (threads s ! t))"
    and ne: "\<exists>t < length ops. key_of (ops ! t) = k"
    and run: "run sched s = Some s'"
  shows "length (invocations ops k (trace s')) \<le> 1 \<and>
    (\<forall>t < length ops. key_of (ops ! t) = k \<longrightarrow>
       (\<forall>c b v e. pc (threads s' ! t) = Returned c b v e \<longrightarrow>
          invocations ops k (trace s') = [(v, e)])) \<and>
    (\<exists>sched' s'' v e. run sched' s' = Some s'' \<and> invocations ops k (trace s'') = [(v, e)] \<and>
       (\<forall>t < length ops. key_of (ops ! t) = k \<longrightarrow>
          (\<exists>c b. pc (threads s'' ! t) = Returned c b v e)))"
proof -
  from reachable_finv[OF reach nf] have f: "finv s" .
  then have np: "\<not> panicked s" by (simp add: finv_def)
  from reachable_ops[OF reach np] have ops: "map op (threads s) = ops" .
  then have len: "length (threads s) = length ops" by (metis length_map)
  from conc have fl: "\<forall>t < length ops. key_of (ops ! t) = k \<longrightarrow> in_flight (pc (threads s ! t))"
    by simp
  from flight_same_record[OF f ops fl ne] obtain c0 where
    a0: "\<forall>t < length ops. key_of (ops ! t) = k \<longrightarrow> attached (pc (threads s ! t)) = Some c0"
    by blast
  have later: "\<And>sc s2. run sc s = Some s2 \<Longrightarrow>
      finv s2 \<and> map op (threads s2) = ops \<and>
      (\<forall>t < length ops. key_of (ops ! t) = k \<longrightarrow> attached (pc (threads s2 ! t)) = Some c0)"
  proof -
    fix sc s2 assume r: "run sc s = Some s2"
    from finv_run[OF f r] have f2: "finv s2" .
    then have "\<not> panicked s2" by (simp add: finv_def)
    from reachable_ops[OF reachable_run[OF reach r] this] have o2: "map op (threads s2) = ops" .
    have "\<forall>t < length ops. key_of (ops ! t) = k \<longrightarrow> attached (pc (threads s2 ! t)) = Some c0"
      using attached_run[OF f r] a0 len by simp
    with f2 o2 show "finv s2 \<and> map op (threads s2) = ops \<and>
      (\<forall>t < length ops. key_of (ops ! t) = k \<longrightarrow> attached (pc (threads s2 ! t)) = Some c0)"
      by simp
  qed
  have facts: "\<And>s2. finv s2 \<Longrightarrow> map op (threads s2) = ops \<Longrightarrow>
      (\<forall>t < length ops. key_of (ops ! t) = k \<longrightarrow> attached (pc (threads s2 ! t)) = Some c0) \<Longrightarrow>
      length (invocations ops k (trace s2)) \<le> 1 \<and>
      (\<forall>t < length ops. key_of (ops ! t) = k \<longrightarrow>
         (\<forall>c b v e. pc (threads s2 ! t) = Returned c b v e \<longrightarrow>
            invocations ops k (trace s2) = [(v, e)]))"
  proof -
    fix s2 assume f2: "finv s2" and o2: "map op (threads s2) = ops"
      and a2: "\<forall>t < length ops. key_of (ops ! t) = k \<longrightarrow> attached (pc (threads s2 ! t)) = Some c0"
    from o2 have l2: "length (threads s2) = length ops" by (metis length_map)
    from key_invocations[OF f2 o2 a2 ne]
    have ki: "invocations ops k (trace s2) = results_for c0 (trace s2)" .
    from ne obtain t0 where t0: "t0 < length ops" "key_of (ops ! t0) = k" by blast
    with a2 l2 f2 have "c0 < length (calls s2)"
      using attached_valid[of s2 t0 c0] by (simp add: finv_def ginv_def)
    from results_at_most_one[OF f2 this] ki
    have one: "length (invocations ops k (trace s2)) \<le> 1" by simp
    have "\<forall>t < length ops. key_of (ops ! t) = k \<longrightarrow>
         (\<forall>c b v e. pc (threads s2 ! t) = Returned c b v e \<longrightarrow>
            invocations ops k (trace s2) = [(v, e)])"
    proof (intro allI impI)
      fix t c b v e assume t: "t < length ops" "key_of (ops ! t) = k"
        and r: "pc (threads s2 ! t) = Returned c b v e"
      from a2 t r have "c = c0" by auto
      with returned_result[OF f2 _ r] t l2 ki
      show "invocations ops k (trace s2) = [(v, e)]" by simp
    qed
    with one show "length (invocations ops k (trace s2)) \<le> 1 \<and>
      (\<forall>t < length ops. key_of (ops ! t) = k \<longrightarrow>
         (\<forall>c b v e. pc (threads s2 ! t) = Returned c b v e \<longrightarrow>
            invocations ops k (trace s2) = [(v, e)]))" by simp
  qed
  from later[OF run] have l1: "finv s'" "map op (threads s') = ops"
    "\<forall>t < length ops. key_of (ops ! t) = k \<longrightarrow> attached (pc (threads s' ! t)) = Some c0"
    by simp_all
  from completes[OF l1(1)] obtain sched' s'' where c: "run sched' s' = Some s''"
    "\<forall>t < length (threads s''). final (pc (threads s'' ! t))" by blast
  from run c(1) have "run (sched @ sched') s = Some s''" by (simp add: run_append)
  from later[OF this] have l2: "finv s''" "map op (threads s'') = ops"
    "\<forall>t < length ops. key_of (ops ! t) = k \<longrightarrow> attached (pc (threads s'' ! t)) = Some c0"
    by simp_all
  from l2(2) have len2: "length (threads s'') = length ops" by (metis length_map)
  from l2(2) have opn2: "\<And>x. x < length ops \<Longrightarrow> op (threads s'' ! x) = ops ! x"
    by (metis nth_map len2)
  have ret: "\<And>t. t < length ops \<Longrightarrow> key_of (ops ! t) = k \<Longrightarrow>
      \<exists>c b v e. pc (threads s'' ! t) = Returned c b v e"
  proof -
    fix t assume t: "t < length ops" "key_of (ops ! t) = k"
    with c(2) len2 have fin: "final (pc (threads s'' ! t))" by simp
    from l2(1) t(1) len2 have "pc_ff s'' (threads s'' ! t) (pc (threads s'' ! t))"
      by (simp add: finv_def pcs_ff_def)
    with fin conc t opn2[OF t(1)]
    show "\<exists>c b v e. pc (threads s'' ! t) = Returned c b v e"
      by (cases "pc (threads s'' ! t)"; cases "ops ! t") auto
  qed
  from ne obtain t0 where t0: "t0 < length ops" "key_of (ops ! t0) = k" by blast
  from ret[OF t0] obtain c1 b1 v e where r0: "pc (threads s'' ! t0) = Returned c1 b1 v e"
    by blast
  from facts[OF l2] t0 r0 have inv: "invocations ops k (trace s'') = [(v, e)]" by blast
  have "\<forall>t < length ops. key_of (ops ! t) = k \<longrightarrow> (\<exists>c b. pc (threads s'' ! t) = Returned c b v e)"
  proof (intro allI impI)
    fix t assume t: "t < length ops" "key_of (ops ! t) = k"
    from ret[OF t] obtain c b v' e' where r: "pc (threads s'' ! t) = Returned c b v' e'"
      by blast
    with facts[OF l2] t have "invocations ops k (trace s'') = [(v', e')]" by blast
    with inv r show "\<exists>c b. pc (threads s'' ! t) = Returned c b v e" by simp
  qed
  with c(1) inv facts[OF l1] show ?thesis by blast
qed

theorem do_runs_once_witness:
  "\<exists>s s'. run [0, 0, 1, 1, 2, 2]
        (init [Do ''k'' (unit_fn 7), Do ''k'' (unit_fn 8), Do ''k'' (unit_fn 9)] ()) = Some s \<and>
     pc (threads s ! 0) = Call 0 \<and> pc (threads s ! 1) = Wait 0 \<and> pc (threads s ! 2) = Wait 0 \<and>
     run [0, 0, 1, 1] s = Some s' \<and>
     pc (threads s' ! 1) = Returned 0 True (Some 7) None \<and>
     invocations [Do ''k'' (unit_fn 7), Do ''k'' (unit_fn 8), Do ''k'' (unit_fn 9)] ''k'' (trace s')
       = [(Some 7, None)] \<and>
     (\<exists>sched' s'' v e. run sched' s' = Some s'' \<and>
        invocations [Do ''k'' (unit_fn 7), Do ''k'' (unit_fn 8), Do ''k'' (unit_fn 9)] ''k''
          (trace s'') = [(v, e)] \<and>
        (\<exists>c b. pc (threads s'' ! 0) = Returned c b v e) \<and>
        (\<exists>c b. pc (threads s'' ! 1) = Returned c b v e) \<and>
        (\<exists>c b. pc (threads s'' ! 2) = Returned c b v e))"
proof -
  let ?ops = "[Do ''k'' (unit_fn 7), Do ''k'' (unit_fn 8), Do ''k'' (unit_fn 9)]"
  have "\<exists>s s'. run [0, 0, 1, 1, 2, 2] (init ?ops ()) = Some s \<and>
     pc (threads s ! 0) = Call 0 \<and> pc (threads s ! 1) = Wait 0 \<and> pc (threads s ! 2) = Wait 0 \<and>
     run [0, 0, 1, 1] s = Some s' \<and> pc (threads s' ! 1) = Returned 0 True (Some 7) None"
    by (simp add: sf_defs unit_fn_def)
  then obtain s s' where r: "run [0, 0, 1, 1, 2, 2] (init ?ops ()) = Some s"
    and p: "pc (threads s ! 0) = Call 0" "pc (threads s ! 1) = Wait 0" "pc (threads s ! 2) = Wait 0"
    and r': "run [0, 0, 1, 1] s = Some s'"
    and p': "pc (threads s' ! 1) = Returned 0 True (Some 7) None"
    by blast
  from r have reach: "reachable ?ops () s" unfolding reachable_def by blast
  have nf: "\<forall>x \<in> set ?ops. \<not> is_Forget x" by simp
  have three: "\<And>t. t < length ?ops \<Longrightarrow> t = 0 \<or> t = 1 \<or> t = 2" by auto
  have conc: "\<forall>t < length ?ops. key_of (?ops ! t) = ''k'' \<longrightarrow>
        is_Do (?ops ! t) \<and> in_flight (pc (threads s ! t))"
  proof (intro allI impI)
    fix t assume "t < length ?ops"
    from three[OF this] p show "is_Do (?ops ! t) \<and> in_flight (pc (threads s ! t))" by auto
  qed
  have ne: "\<exists>t < length ?ops. key_of (?ops ! t) = ''k''" by (intro exI[of _ 0]) simp
  from do_runs_once[OF reach nf conc ne r']
  have a: "\<forall>t < length ?ops. key_of (?ops ! t) = ''k'' \<longrightarrow>
       (\<forall>c b v e. pc (threads s' ! t) = Returned c b v e \<longrightarrow>
          invocations ?ops ''k'' (trace s') = [(v, e)])"
    and b: "\<exists>sched' s'' v e. run sched' s' = Some s'' \<and>
       invocations ?ops ''k'' (trace s'') = [(v, e)] \<and>
       (\<forall>t < length ?ops. key_of (?ops ! t) = ''k'' \<longrightarrow>
          (\<exists>c b. pc (threads s'' ! t) = Returned c b v e))"
    by blast+
  from a[rule_format, of 1 0 True "Some 7" None] p'
  have i: "invocations ?ops ''k'' (trace s') = [(Some 7, None)]" by simp
  from b obtain sched' s'' v e where c: "run sched' s' = Some s''"
    "invocations ?ops ''k'' (trace s'') = [(v, e)]"
    "\<forall>t < length ?ops. key_of (?ops ! t) = ''k'' \<longrightarrow> (\<exists>c b. pc (threads s'' ! t) = Returned c b v e)"
    by blast
  from c(3)[rule_format, of 0] c(3)[rule_format, of 1] c(3)[rule_format, of 2]
  have "\<exists>c b. pc (threads s'' ! 0) = Returned c b v e"
    "\<exists>c b. pc (threads s'' ! 1) = Returned c b v e"
    "\<exists>c b. pc (threads s'' ! 2) = Returned c b v e"
    by simp_all
  with r p r' p' i c(1,2) show ?thesis by blast
qed

section \<open>After the call\<close>

text \<open>
  A key none of whose calls is on the executing path (between the registration of line 43
  and the removal of line 51) has no record in the registry; and a \<open>Do\<close> call that
  starts on such a key with the mutex free and runs alone goes through its seven steps,
  invokes its own unit of work and leaves the key without a record again.
\<close>

lemma quiet_key:
  assumes "reachable ops w s" "\<not> panicked s"
    and q: "\<forall>t < length ops. key_of (ops ! t) = k \<longrightarrow> executing (pc (threads s ! t)) = None"
  shows "map_get (m s) k = None"
proof (rule ccontr)
  assume "map_get (m s) k \<noteq> None"
  then obtain c where c: "map_get (m s) k = Some c" by auto
  from reachable_ginv[OF assms(1,2)] have "entries_executed s" by (simp add: ginv_def)
  with c obtain t where t: "t < length (threads s)" "executing (pc (threads s ! t)) = Some c"
    "key_of (op (threads s ! t)) = k"
    by (auto simp: entries_executed_def)
  with reachable_op_nth[OF assms(1,2)] q show False by auto
qed

lemma solo_do:
  assumes "\<not> panicked s" "t < length (threads s)" "op (threads s ! t) = Do k f"
    "pc (threads s ! t) = Lock" "mu s = None" "map_get (m s) k = None"
    "f (world s) = ((v, e), w')"
  shows "\<exists>s'. run [t, t, t, t, t, t, t] s = Some s' \<and>
     trace s' = trace s @ [Invoked t (length (calls s)) v e, Signalled t (length (calls s))] \<and>
     pc (threads s' ! t) = Returned (length (calls s)) False v e \<and>
     map_get (m s') k = None \<and> \<not> panicked s'"
  using assms by (simp add: sf_defs split: option.splits)


lemma back_to_back:
  assumes "f w0 = ((v1, e1), w1)" "g w1 = ((v2, e2), w2)"
  shows "\<exists>s1 s2. run [0, 0, 0, 0, 0, 0, 0] (init [Do k f, Do k g] w0) = Some s1 \<and>
     pc (threads s1 ! 0) = Returned 0 False v1 e1 \<and> pc (threads s1 ! 1) = Lock \<and>
     run [1, 1, 1, 1, 1, 1, 1] s1 = Some s2 \<and>
     pc (threads s2 ! 1) = Returned 1 False v2 e2 \<and>
     invocations [Do k f, Do k g] k (trace s2) = [(v1, e1), (v2, e2)] \<and>
     map_get (m s2) k = None"
  using assms by (simp add: sf_defs invocations_def picks_def)

text \<open>
  C4. In every state reached without a panic (whatever mix of \<open>Do\<close>, \<open>DoChan\<close>
  and \<open>Forget\<close> runs), a key none of whose calls is between its registration and its
  removal of the record (in particular a key whose calls have all returned or not begun)
  has no record in the registry. A \<open>Do\<close> call for the key that begins in such a state
  and runs alone invokes its own unit of work: the invocations for the key grow by exactly
  this one, the call returns its outcome unshared, and the key has no record afterwards.
  So two \<open>Do\<close> calls for one key, the first run to its end before the second begins,
  invoke the unit of work twice, each returning the outcome of its own invocation.
\<close>

theorem do_leaves_no_record:
  fixes ops :: "('v, 'e, 'w) op list"
  assumes "reachable ops w s" "\<not> panicked s"
    and "\<forall>t < length ops. key_of (ops ! t) = k \<longrightarrow> executing (pc (threads s ! t)) = None"
  shows "map_get (m s) k = None \<and>
    (\<forall>t f v e w'. t < length ops \<and> ops ! t = Do k f \<and> pc (threads s ! t) = Lock \<and>
        mu s = None \<and> f (world s) = ((v, e), w') \<longrightarrow>
       (\<exists>s'. run [t, t, t, t, t, t, t] s = Some s' \<and>
          invocations ops k (trace s') = invocations ops k (trace s) @ [(v, e)] \<and>
          pc (threads s' ! t) = Returned (length (calls s)) False v e \<and>
          map_get (m s') k = None)) \<and>
    (\<forall>(f :: ('v, 'e, 'w) fn) g w0 v1 e1 w1 v2 e2 w2.
        f w0 = ((v1, e1), w1) \<and> g w1 = ((v2, e2), w2) \<longrightarrow>
       (\<exists>s1 s2. run [0, 0, 0, 0, 0, 0, 0] (init [Do k f, Do k g] w0) = Some s1 \<and>
          pc (threads s1 ! 0) = Returned 0 False v1 e1 \<and> pc (threads s1 ! 1) = Lock \<and>
          run [1, 1, 1, 1, 1, 1, 1] s1 = Some s2 \<and>
          pc (threads s2 ! 1) = Returned 1 False v2 e2 \<and>
          invocations [Do k f, Do k g] k (trace s2) = [(v1, e1), (v2, e2)] \<and>
          map_get (m s2) k = None))"
proof (intro conjI allI impI)
  show q: "map_get (m s) k = None" by (rule quiet_key[OF assms])
  fix t f v e w'
  assume a: "t < length ops \<and> ops ! t = Do k f \<and> pc (threads s ! t) = Lock \<and>
        mu s = None \<and> f (world s) = ((v, e), w')"
  from reachable_ops[OF assms(1,2)] have ops: "map op (threads s) = ops" .
  then have len: "length (threads s) = length ops" by (metis length_map)
  with a have t: "t < length (threads s)" by simp
  from reachable_op_nth[OF assms(1,2)] a t have o: "op (threads s ! t) = Do k f" by simp
  from a have kk: "key_of (ops ! t) = k" by simp
  from a have a1: "pc (threads s ! t) = Lock" and a2: "mu s = None"
    and a3: "f (world s) = ((v, e), w')" by simp_all
  from solo_do[OF assms(2) t o a1 a2 q a3]
  obtain s' where s': "run [t, t, t, t, t, t, t] s = Some s'"
     "trace s' = trace s @ [Invoked t (length (calls s)) v e, Signalled t (length (calls s))]"
     "pc (threads s' ! t) = Returned (length (calls s)) False v e"
     "map_get (m s') k = None" by blast
  from s'(2) kk have "invocations ops k (trace s') = invocations ops k (trace s) @ [(v, e)]"
    by (simp add: invocations_def picks_def)
  with s' show "\<exists>s'. run [t, t, t, t, t, t, t] s = Some s' \<and>
          invocations ops k (trace s') = invocations ops k (trace s) @ [(v, e)] \<and>
          pc (threads s' ! t) = Returned (length (calls s)) False v e \<and>
          map_get (m s') k = None" by blast
next
  fix f :: "('v, 'e, 'w) fn" and g :: "('v, 'e, 'w) fn" and w0 v1 e1 w1 v2 e2 w2
  assume "f w0 = ((v1, e1), w1) \<and> g w1 = ((v2, e2), w2)"
  then show "\<exists>s1 s2. run [0, 0, 0, 0, 0, 0, 0] (init [Do k f, Do k g] w0) = Some s1 \<and>
          pc (threads s1 ! 0) = Returned 0 False v1 e1 \<and> pc (threads s1 ! 1) = Lock \<and>
          run [1, 1, 1, 1, 1, 1, 1] s1 = Some s2 \<and>
          pc (threads s2 ! 1) = Returned 1 False v2 e2 \<and>
          invocations [Do k f, Do k g] k (trace s2) = [(v1, e1), (v2, e2)] \<and>
          map_get (m s2) k = None"
    using back_to_back[of f w0 v1 e1 w1 g v2 e2 w2 k] by blast
qed

theorem do_leaves_no_record_witness:
  "\<exists>s. run [0, 0, 0, 0, 0, 0, 0] (init [Do ''k'' (unit_fn 7), Do ''k'' (unit_fn 8)] ()) = Some s \<and>
     \<not> panicked s \<and> pc (threads s ! 0) = Returned 0 False (Some 7) None \<and>
     pc (threads s ! 1) = Lock \<and> mu s = None \<and>
     map_get (m s) ''k'' = None \<and>
     (\<exists>s'. run [1, 1, 1, 1, 1, 1, 1] s = Some s' \<and>
        invocations [Do ''k'' (unit_fn 7), Do ''k'' (unit_fn 8)] ''k'' (trace s')
          = [(Some 7, None), (Some 8, None)] \<and>
        pc (threads s' ! 1) = Returned 1 False (Some 8) None \<and>
        map_get (m s') ''k'' = None)"
proof -
  let ?ops = "[Do ''k'' (unit_fn 7), Do ''k'' (unit_fn 8)]"
  have "\<exists>s. run [0, 0, 0, 0, 0, 0, 0] (init ?ops ()) = Some s \<and>
     \<not> panicked s \<and> pc (threads s ! 0) = Returned 0 False (Some 7) None \<and>
     pc (threads s ! 1) = Lock \<and> mu s = None \<and> length (calls s) = 1 \<and> world s = () \<and>
     invocations ?ops ''k'' (trace s) = [(Some 7, None)]"
    by (simp add: sf_defs unit_fn_def invocations_def picks_def)
  then obtain s where r: "run [0, 0, 0, 0, 0, 0, 0] (init ?ops ()) = Some s"
    and np: "\<not> panicked s"
    and p: "pc (threads s ! 0) = Returned 0 False (Some 7) None" "pc (threads s ! 1) = Lock"
    and mu: "mu s = None" and lc: "length (calls s) = 1"
    and inv: "invocations ?ops ''k'' (trace s) = [(Some 7, None)]"
    by blast
  from r have reach: "reachable ?ops () s" unfolding reachable_def by blast
  have two: "\<And>t. t < length ?ops \<Longrightarrow> t = 0 \<or> t = 1" by auto
  have quiet: "\<forall>t < length ?ops. key_of (?ops ! t) = ''k'' \<longrightarrow>
        executing (pc (threads s ! t)) = None"
  proof (intro allI impI)
    fix t assume "t < length ?ops"
    from two[OF this] p show "executing (pc (threads s ! t)) = None" by auto
  qed
  from do_leaves_no_record[OF reach np quiet]
  have a: "map_get (m s) ''k'' = None"
    and b: "\<forall>t f v e w'. t < length ?ops \<and> ?ops ! t = Do ''k'' f \<and> pc (threads s ! t) = Lock \<and>
        mu s = None \<and> f (world s) = ((v, e), w') \<longrightarrow>
       (\<exists>s'. run [t, t, t, t, t, t, t] s = Some s' \<and>
          invocations ?ops ''k'' (trace s') = invocations ?ops ''k'' (trace s) @ [(v, e)] \<and>
          pc (threads s' ! t) = Returned (length (calls s)) False v e \<and>
          map_get (m s') ''k'' = None)"
    by blast+
  have "1 < length ?ops \<and> ?ops ! 1 = Do ''k'' (unit_fn 8) \<and> pc (threads s ! 1) = Lock \<and>
        mu s = None \<and> unit_fn 8 (world s) = ((Some 8, None), ())"
    using p mu by (simp add: unit_fn_def)
  from b[rule_format, OF this] inv lc
  have "\<exists>s'. run [1, 1, 1, 1, 1, 1, 1] s = Some s' \<and>
        invocations ?ops ''k'' (trace s') = [(Some 7, None), (Some 8, None)] \<and>
        pc (threads s' ! 1) = Returned 1 False (Some 8) None \<and>
        map_get (m s') ''k'' = None" by simp
  with r np p mu a show ?thesis by blast
qed

section \<open>Errors of the unit of work\<close>

text \<open>
  Line 46 (81) stores what the unit of work returned, and line 51 (86) removes the record
  of the key, whatever was stored.
\<close>

lemma call_step:
  assumes "finv s" "t < length (threads s)" "pc (threads s ! t) = Call c"
    "fn_of (op (threads s ! t)) = Some f" "f (world s) = ((v, e), w')"
  shows "\<exists>s'. step t s = Some s' \<and> val (calls s' ! c) = v \<and> err (calls s' ! c) = e \<and>
     trace s' = trace s @ [Invoked t c v e] \<and> pc (threads s' ! t) = Signal c"
proof -
  from assms(1) have np: "\<not> panicked s" and pk: "pcs_ok s" by (simp_all add: finv_def ginv_def)
  from attached_valid[OF pk assms(2)] assms(3) have c: "c < length (calls s)" by simp
  from assms(4) obtain k where "op (threads s ! t) = Do k f \<or> op (threads s ! t) = DoChan k f"
    by (cases "op (threads s ! t)") auto
  with np assms(2,3,5) c show ?thesis
    by (auto simp: step_def run_fn_def)
qed

lemma delete_step:
  assumes "\<not> panicked s" "t < length (threads s)" "pc (threads s ! t) = Delete c"
    "\<not> is_Forget (op (threads s ! t))"
  shows "\<exists>s'. step t s = Some s' \<and> map_get (m s') (key_of (op (threads s ! t))) = None \<and>
     calls s' = calls s \<and> pc (threads s' ! t) = Owned c"
  using assms by (cases "op (threads s ! t)") (auto simp: step_def)

text \<open>
  C5. In every state of a run without \<open>Forget\<close>: the step of line 46 stores the value
  and the error that the unit of work returned, as they are, in the record, and invokes the
  unit of work once (no record ever has two invocations); a \<open>Do\<close> call that has returned
  has returned the value and the error stored in its record, which are those of the one
  invocation for that record, so all the calls that shared the record return the same
  error; the step of line 51 removes the record of the key without looking at the error;
  and once no call of a key is between registration and removal, the key has no record and
  a \<open>Do\<close> call that begins and runs alone invokes its own unit of work and returns the
  outcome of that invocation, with a new record. The error is an \<open>'e option\<close>,
  \<open>None\<close> for \<open>nil\<close>: nothing in the statements depends on which it is.
\<close>

theorem do_error_verbatim:
  fixes ops :: "('v, 'e, 'w) op list"
  assumes reach: "reachable ops w s" and nf: "\<forall>x \<in> set ops. \<not> is_Forget x"
  shows
   "(\<forall>t < length ops. \<forall>c f v e w'.
        pc (threads s ! t) = Call c \<and> fn_of (ops ! t) = Some f \<and> f (world s) = ((v, e), w') \<longrightarrow>
        (\<exists>s'. step t s = Some s' \<and> val (calls s' ! c) = v \<and> err (calls s' ! c) = e \<and>
           trace s' = trace s @ [Invoked t c v e] \<and> pc (threads s' ! t) = Signal c)) \<and>
    (\<forall>c < length (calls s). length (results_for c (trace s)) \<le> 1) \<and>
    (\<forall>t < length ops. \<forall>c b v e. pc (threads s ! t) = Returned c b v e \<longrightarrow>
        results_for c (trace s) = [(v, e)] \<and> val (calls s ! c) = v \<and> err (calls s ! c) = e) \<and>
    (\<forall>t < length ops. \<forall>c. pc (threads s ! t) = Delete c \<longrightarrow>
        (\<exists>s'. step t s = Some s' \<and> map_get (m s') (key_of (ops ! t)) = None \<and>
           calls s' = calls s \<and> pc (threads s' ! t) = Owned c)) \<and>
    (\<forall>k. (\<forall>t < length ops. key_of (ops ! t) = k \<longrightarrow> executing (pc (threads s ! t)) = None) \<longrightarrow>
        map_get (m s) k = None \<and>
        (\<forall>t g v e w'. t < length ops \<and> ops ! t = Do k g \<and> pc (threads s ! t) = Lock \<and>
            mu s = None \<and> g (world s) = ((v, e), w') \<longrightarrow>
           (\<exists>s'. run [t, t, t, t, t, t, t] s = Some s' \<and>
              trace s' = trace s @
                [Invoked t (length (calls s)) v e, Signalled t (length (calls s))] \<and>
              pc (threads s' ! t) = Returned (length (calls s)) False v e \<and>
              map_get (m s') k = None)))"
proof -
  from reachable_finv[OF reach nf] have f: "finv s" .
  then have np: "\<not> panicked s" and nfs: "no_forget s" by (simp_all add: finv_def)
  from reachable_op_nth[OF reach np]
  have len: "length (threads s) = length ops"
    and opn: "\<And>t. t < length ops \<Longrightarrow> op (threads s ! t) = ops ! t" by simp_all
  have A: "\<forall>t < length ops. \<forall>c f v e w'.
        pc (threads s ! t) = Call c \<and> fn_of (ops ! t) = Some f \<and> f (world s) = ((v, e), w') \<longrightarrow>
        (\<exists>s'. step t s = Some s' \<and> val (calls s' ! c) = v \<and> err (calls s' ! c) = e \<and>
           trace s' = trace s @ [Invoked t c v e] \<and> pc (threads s' ! t) = Signal c)"
  proof (intro allI impI)
    fix t c fa v e w'
    assume t: "t < length ops"
      and a: "pc (threads s ! t) = Call c \<and> fn_of (ops ! t) = Some fa \<and>
        fa (world s) = ((v, e), w')"
    from a have a1: "pc (threads s ! t) = Call c" and a3: "fa (world s) = ((v, e), w')"
      by simp_all
    from a opn[OF t] have a2: "fn_of (op (threads s ! t)) = Some fa" by simp
    from t len have t': "t < length (threads s)" by simp
    from call_step[OF f t' a1 a2 a3]
    show "\<exists>s'. step t s = Some s' \<and> val (calls s' ! c) = v \<and> err (calls s' ! c) = e \<and>
           trace s' = trace s @ [Invoked t c v e] \<and> pc (threads s' ! t) = Signal c" .
  qed
  have B: "\<forall>c < length (calls s). length (results_for c (trace s)) \<le> 1"
    using results_at_most_one[OF f] by blast
  have C: "\<forall>t < length ops. \<forall>c b v e. pc (threads s ! t) = Returned c b v e \<longrightarrow>
        results_for c (trace s) = [(v, e)] \<and> val (calls s ! c) = v \<and> err (calls s ! c) = e"
  proof (intro allI impI)
    fix t c b v e
    assume t: "t < length ops" and a: "pc (threads s ! t) = Returned c b v e"
    from t len have t': "t < length (threads s)" by simp
    from f t' have "pc_ff s (threads s ! t) (pc (threads s ! t))"
      by (simp add: finv_def pcs_ff_def)
    with a have "val (calls s ! c) = v \<and> err (calls s ! c) = e" by simp
    with returned_result[OF f t' a]
    show "results_for c (trace s) = [(v, e)] \<and> val (calls s ! c) = v \<and> err (calls s ! c) = e"
      by simp
  qed
  have D: "\<forall>t < length ops. \<forall>c. pc (threads s ! t) = Delete c \<longrightarrow>
        (\<exists>s'. step t s = Some s' \<and> map_get (m s') (key_of (ops ! t)) = None \<and>
           calls s' = calls s \<and> pc (threads s' ! t) = Owned c)"
  proof (intro allI impI)
    fix t c
    assume t: "t < length ops" and a: "pc (threads s ! t) = Delete c"
    from t len have t': "t < length (threads s)" by simp
    from nfs t' have "\<not> is_Forget (op (threads s ! t))" by (simp add: no_forget_def)
    from delete_step[OF np t' a this] opn[OF t]
    show "\<exists>s'. step t s = Some s' \<and> map_get (m s') (key_of (ops ! t)) = None \<and>
           calls s' = calls s \<and> pc (threads s' ! t) = Owned c" by simp
  qed
  have E: "\<forall>k. (\<forall>t < length ops. key_of (ops ! t) = k \<longrightarrow>
            executing (pc (threads s ! t)) = None) \<longrightarrow>
        map_get (m s) k = None \<and>
        (\<forall>t g v e w'. t < length ops \<and> ops ! t = Do k g \<and> pc (threads s ! t) = Lock \<and>
            mu s = None \<and> g (world s) = ((v, e), w') \<longrightarrow>
           (\<exists>s'. run [t, t, t, t, t, t, t] s = Some s' \<and>
              trace s' = trace s @
                [Invoked t (length (calls s)) v e, Signalled t (length (calls s))] \<and>
              pc (threads s' ! t) = Returned (length (calls s)) False v e \<and>
              map_get (m s') k = None))"
  proof (intro allI impI conjI)
    fix k
    assume q: "\<forall>t < length ops. key_of (ops ! t) = k \<longrightarrow> executing (pc (threads s ! t)) = None"
    show mk: "map_get (m s) k = None" by (rule quiet_key[OF reach np q])
    fix t g v e w'
    assume a: "t < length ops \<and> ops ! t = Do k g \<and> pc (threads s ! t) = Lock \<and>
            mu s = None \<and> g (world s) = ((v, e), w')"
    then have t: "t < length ops" and a1: "pc (threads s ! t) = Lock" and a2: "mu s = None"
      and a3: "g (world s) = ((v, e), w')" by simp_all
    from t len have t': "t < length (threads s)" by simp
    from a opn[OF t] have o: "op (threads s ! t) = Do k g" by simp
    from solo_do[OF np t' o a1 a2 mk a3]
    show "\<exists>s'. run [t, t, t, t, t, t, t] s = Some s' \<and>
              trace s' = trace s @
                [Invoked t (length (calls s)) v e, Signalled t (length (calls s))] \<and>
              pc (threads s' ! t) = Returned (length (calls s)) False v e \<and>
              map_get (m s') k = None" by blast
  qed
  from A B C D E show ?thesis by (intro conjI)
qed


theorem do_error_verbatim_witness:
  "\<exists>sa sb sc.
     run [0, 0]
       (init [Do ''k'' (fail_fn ''boom''), Do ''k'' (unit_fn 8), Do ''k'' (unit_fn 9)] ()) = Some sa \<and>
     pc (threads sa ! 0) = Call 0 \<and>
     (\<exists>s'. step 0 sa = Some s' \<and> val (calls s' ! 0) = None \<and> err (calls s' ! 0) = Some ''boom'' \<and>
        trace s' = trace sa @ [Invoked 0 0 None (Some ''boom'')]) \<and>
     run [0, 0, 1, 1, 0, 0, 0]
       (init [Do ''k'' (fail_fn ''boom''), Do ''k'' (unit_fn 8), Do ''k'' (unit_fn 9)] ()) = Some sb \<and>
     pc (threads sb ! 0) = Delete 0 \<and> err (calls sb ! 0) = Some ''boom'' \<and>
     (\<exists>s'. step 0 sb = Some s' \<and> map_get (m s') ''k'' = None) \<and>
     run [0, 0, 1, 1, 0, 0, 0, 0, 0, 1, 1]
       (init [Do ''k'' (fail_fn ''boom''), Do ''k'' (unit_fn 8), Do ''k'' (unit_fn 9)] ()) = Some sc \<and>
     pc (threads sc ! 0) = Returned 0 False None (Some ''boom'') \<and>
     pc (threads sc ! 1) = Returned 0 True None (Some ''boom'') \<and>
     pc (threads sc ! 2) = Lock \<and>
     results_for 0 (trace sc) = [(None, Some ''boom'')] \<and>
     map_get (m sc) ''k'' = None \<and>
     (\<exists>s'. run [2, 2, 2, 2, 2, 2, 2] sc = Some s' \<and>
        pc (threads s' ! 2) = Returned 1 False (Some 9) None \<and> map_get (m s') ''k'' = None)"
proof -
  let ?ops = "[Do ''k'' (fail_fn ''boom''), Do ''k'' (unit_fn 8), Do ''k'' (unit_fn 9)]"
  have nf: "\<forall>x \<in> set ?ops. \<not> is_Forget x" by simp
  have three: "\<And>t. t < length ?ops \<Longrightarrow> t = 0 \<or> t = 1 \<or> t = 2" by auto
  have "\<exists>sa. run [0, 0] (init ?ops ()) = Some sa \<and> pc (threads sa ! 0) = Call 0 \<and>
      world sa = ()"
    by (simp add: sf_defs)
  then obtain sa where ra: "run [0, 0] (init ?ops ()) = Some sa"
    and pa: "pc (threads sa ! 0) = Call 0" by blast
  from ra have reach_a: "reachable ?ops () sa" unfolding reachable_def by blast
  have "0 < length ?ops" by simp
  moreover have "pc (threads sa ! 0) = Call 0 \<and> fn_of (?ops ! 0) = Some (fail_fn ''boom'') \<and>
      fail_fn ''boom'' (world sa) = ((None, Some ''boom''), ())"
    using pa by (simp add: fail_fn_def)
  ultimately have A: "\<exists>s'. step 0 sa = Some s' \<and> val (calls s' ! 0) = None \<and>
      err (calls s' ! 0) = Some ''boom'' \<and>
      trace s' = trace sa @ [Invoked 0 0 None (Some ''boom'')]"
    using do_error_verbatim[OF reach_a nf, THEN conjunct1, rule_format,
        of 0 0 "fail_fn ''boom''" None "Some ''boom''" "()"]
    by blast
  have "\<exists>sb. run [0, 0, 1, 1, 0, 0, 0] (init ?ops ()) = Some sb \<and>
      pc (threads sb ! 0) = Delete 0 \<and> err (calls sb ! 0) = Some ''boom''"
    by (simp add: sf_defs fail_fn_def)
  then obtain sb where rb: "run [0, 0, 1, 1, 0, 0, 0] (init ?ops ()) = Some sb"
    and pb: "pc (threads sb ! 0) = Delete 0" and eb: "err (calls sb ! 0) = Some ''boom''"
    by blast
  from rb have reach_b: "reachable ?ops () sb" unfolding reachable_def by blast
  have "\<exists>s'. step 0 sb = Some s' \<and> map_get (m s') (key_of (?ops ! 0)) = None \<and>
      calls s' = calls sb \<and> pc (threads s' ! 0) = Owned 0"
    using do_error_verbatim[OF reach_b nf, THEN conjunct2, THEN conjunct2, THEN conjunct2,
        THEN conjunct1, rule_format, of 0 0] pb
    by simp
  then have B: "\<exists>s'. step 0 sb = Some s' \<and> map_get (m s') ''k'' = None" by auto
  have "\<exists>sc. run [0, 0, 1, 1, 0, 0, 0, 0, 0, 1, 1] (init ?ops ()) = Some sc \<and>
      pc (threads sc ! 0) = Returned 0 False None (Some ''boom'') \<and>
      pc (threads sc ! 1) = Returned 0 True None (Some ''boom'') \<and>
      pc (threads sc ! 2) = Lock \<and> mu sc = None \<and> length (calls sc) = 1 \<and> world sc = ()"
    by (simp add: sf_defs fail_fn_def)
  then obtain sc where rc: "run [0, 0, 1, 1, 0, 0, 0, 0, 0, 1, 1] (init ?ops ()) = Some sc"
    and pcc: "pc (threads sc ! 0) = Returned 0 False None (Some ''boom'')"
      "pc (threads sc ! 1) = Returned 0 True None (Some ''boom'')"
      "pc (threads sc ! 2) = Lock"
    and muc: "mu sc = None" and lc: "length (calls sc) = 1"
    by blast
  from rc have reach_c: "reachable ?ops () sc" unfolding reachable_def by blast
  have C: "results_for 0 (trace sc) = [(None, Some ''boom'')]"
    using do_error_verbatim[OF reach_c nf, THEN conjunct2, THEN conjunct2, THEN conjunct1,
        rule_format, of 1 0 True None "Some ''boom''"] pcc
    by simp
  have quiet: "\<forall>t < length ?ops. key_of (?ops ! t) = ''k'' \<longrightarrow>
        executing (pc (threads sc ! t)) = None"
  proof (intro allI impI)
    fix t assume "t < length ?ops"
    from three[OF this] pcc show "executing (pc (threads sc ! t)) = None" by auto
  qed
  from do_error_verbatim[OF reach_c nf, THEN conjunct2, THEN conjunct2, THEN conjunct2,
        THEN conjunct2, THEN spec[where x = "''k''"], THEN mp, OF quiet]
  have D: "map_get (m sc) ''k'' = None"
    and E: "\<forall>t g v e w'. t < length ?ops \<and> ?ops ! t = Do ''k'' g \<and> pc (threads sc ! t) = Lock \<and>
            mu sc = None \<and> g (world sc) = ((v, e), w') \<longrightarrow>
           (\<exists>s'. run [t, t, t, t, t, t, t] sc = Some s' \<and>
              trace s' = trace sc @
                [Invoked t (length (calls sc)) v e, Signalled t (length (calls sc))] \<and>
              pc (threads s' ! t) = Returned (length (calls sc)) False v e \<and>
              map_get (m s') ''k'' = None)"
    by blast+
  have "2 < length ?ops \<and> ?ops ! 2 = Do ''k'' (unit_fn 9) \<and> pc (threads sc ! 2) = Lock \<and>
        mu sc = None \<and> unit_fn 9 (world sc) = ((Some 9, None), ())"
    using pcc muc by (simp add: unit_fn_def)
  from E[rule_format, OF this] lc
  have F: "\<exists>s'. run [2, 2, 2, 2, 2, 2, 2] sc = Some s' \<and>
        pc (threads s' ! 2) = Returned 1 False (Some 9) None \<and> map_get (m s') ''k'' = None"
    by auto
  from ra pa A rb pb eb B rc pcc C D F show ?thesis by blast
qed

(*INSERT-THMS*)

end
